theory Spec2Isabelle
  imports Complex_Main "HOL-Library.Log_Nat" "HOL-Library.AList" "HOL-Library.List_Lexorder"
    "HOL-Library.Code_Target_Nat"
begin

section \<open>Exceptions\<close>

text \<open>The exception classes the modelled functions raise or test for; a function that can
  raise returns \<open>exn + 'a\<close>, with \<open>Inl\<close> the exception.\<close>

datatype exn =
  AuthenticationError | OverflowError | AttributeError | TypeError | ValueError
  | JSONDecodeError | OtherError

section \<open>Products of an integer and a float constant\<close>

text \<open>
  \<open>int(target * 0.6)\<close> is computed in double precision: Python converts the integer to
  the nearest double (ties to even, \<open>OverflowError\<close> beyond the range of doubles), rounds
  the product with the constant to the nearest double again, and \<open>int\<close> truncates the
  result towards zero (\<open>OverflowError\<close> on an infinity). A double of magnitude at least
  one is an integer multiple of a power of two with at most 53 significant bits, so the
  model works on integers: a constant is \<open>m / 2^e\<close>, and \<open>round_sig53\<close> rounds an
  integer to 53 significant bits.
\<close>

definition round_even :: "int \<Rightarrow> nat \<Rightarrow> int" where
  \<comment> \<open>\<open>n / 2^s\<close> rounded to the nearest integer, a tie to the even one, for \<open>n \<ge> 0\<close>\<close>
  "round_even n s =
     (let q = n div 2 ^ s; r = n mod 2 ^ s
      in if 2 * r > 2 ^ s \<or> (2 * r = 2 ^ s \<and> odd q) then q + 1 else q)"

definition round_sig53 :: "int \<Rightarrow> int" where
  "round_sig53 n =
     (let s = nat (bitlen \<bar>n\<bar>) - 53
      in sgn n * (round_even \<bar>n\<bar> s * 2 ^ s))"

definition float_of_int :: "int \<Rightarrow> exn + int" where
  "float_of_int n =
     (let f = round_sig53 n
      in if \<bar>f\<bar> \<ge> 2 ^ 1024 then Inl OverflowError else Inr f)"

definition int_of_product :: "int \<Rightarrow> int \<Rightarrow> nat \<Rightarrow> exn + int" where
  \<comment> \<open>\<open>int(n * c)\<close> for the double \<open>c = m / 2^e\<close>\<close>
  "int_of_product n m e =
     (case float_of_int n of
        Inl x \<Rightarrow> Inl x
      | Inr f \<Rightarrow>
          (let p = round_sig53 (f * m)
           in if \<bar>p\<bar> \<ge> 2 ^ (1024 + e) then Inl OverflowError
              else Inr (sgn p * (\<bar>p\<bar> div 2 ^ e))))"

section \<open>Length bounds\<close>

text \<open>
  \<^verbatim>\<open>
  def derive_cut_parameters(target):
      target = max(80, target)
      target_min = max(50, int(target * 0.75))
      target_max = max(target_min + 30, int(target * 1.25))
      cut_min = max(40, int(target * 0.6))
      cut_max = max(cut_min + 50, int(target * 1.6))
      return cut_min, cut_max, target_min, target_max
  \<close>
  The doubles written \<open>0.75\<close>, \<open>1.25\<close>, \<open>0.6\<close> and \<open>1.6\<close> are \<open>3 / 2^2\<close>,
  \<open>5 / 2^2\<close>, \<open>5404319552844595 / 2^53\<close> and \<open>3602879701896397 / 2^51\<close>.
\<close>

definition derive_cut_parameters :: "int \<Rightarrow> exn + (int \<times> int \<times> int \<times> int)" where
  "derive_cut_parameters target0 =
     (let target = max 80 target0 in
      case int_of_product target 3 2 of Inl x \<Rightarrow> Inl x | Inr a \<Rightarrow>
      (let target_min = max 50 a in
       case int_of_product target 5 2 of Inl x \<Rightarrow> Inl x | Inr b \<Rightarrow>
       (let target_max = max (target_min + 30) b in
        case int_of_product target 5404319552844595 53 of Inl x \<Rightarrow> Inl x | Inr c \<Rightarrow>
        (let cut_min = max 40 c in
         case int_of_product target 3602879701896397 51 of Inl x \<Rightarrow> Inl x | Inr d \<Rightarrow>
         (let cut_max = max (cut_min + 50) d in
          Inr (cut_min, cut_max, target_min, target_max))))))"

text \<open>
  The ratio policy as the specification words it, over exact rationals, to be compared
  with \<open>derive_cut_parameters\<close>: ideal-min is \<open>0.75 * target\<close> floored at 50, ideal-max
  \<open>1.25 * target\<close> floored at ideal-min + 30, hard-min \<open>0.6 * target\<close> floored at 40,
  hard-max \<open>1.6 * target\<close> floored at hard-min + 50. The components are in the order
  the function returns them: hard-min, hard-max, ideal-min, ideal-max.
\<close>

definition ratio_policy :: "int \<Rightarrow> int \<times> int \<times> int \<times> int" where
  "ratio_policy target =
     (let ideal_min = max 50 \<lfloor>3 / 4 * (of_int target :: rat)\<rfloor>;
          ideal_max = max (ideal_min + 30) \<lfloor>5 / 4 * (of_int target :: rat)\<rfloor>;
          hard_min = max 40 \<lfloor>3 / 5 * (of_int target :: rat)\<rfloor>;
          hard_max = max (hard_min + 50) \<lfloor>8 / 5 * (of_int target :: rat)\<rfloor>
      in (hard_min, hard_max, ideal_min, ideal_max))"

section \<open>Python strings, slices and searches\<close>

text \<open>
  A Python \<open>str\<close> is a sequence of Unicode code points, and every length and offset of
  the program counts code points. A text is therefore a list of code points, a code point
  a natural number; \<open>ustr\<close> embeds an ASCII literal.
\<close>

type_synonym uchar = nat
type_synonym pystr = "uchar list"

definition ustr :: "string \<Rightarrow> pystr" where
  "ustr s = map of_char s"

definition LF :: uchar where "LF = 10"
definition CR :: uchar where "CR = 13"

text \<open>The two-character paragraph break \<open>"\n\n"\<close>, the ideographic full stop U+3002 and
  the ideographic comma U+3001, as the fallback splitter searches them.\<close>

definition PARA :: pystr where "PARA = [LF, LF]"
definition KUTEN :: pystr where "KUTEN = [12290]"
definition TOUTEN :: pystr where "TOUTEN = [12289]"

text \<open>\<open>str.isspace\<close> on one character: the characters \<open>str.strip()\<close> removes.\<close>

definition is_space :: "uchar \<Rightarrow> bool" where
  "is_space c \<longleftrightarrow>
     (9 \<le> c \<and> c \<le> 13) \<or> (28 \<le> c \<and> c \<le> 32) \<or> c = 133 \<or> c = 160 \<or> c = 5760 \<or>
     (8192 \<le> c \<and> c \<le> 8202) \<or> c = 8232 \<or> c = 8233 \<or> c = 8239 \<or> c = 8287 \<or> c = 12288"

definition lstrip :: "pystr \<Rightarrow> pystr" where
  "lstrip s = dropWhile is_space s"

definition rstrip :: "pystr \<Rightarrow> pystr" where
  "rstrip s = rev (dropWhile is_space (rev s))"

definition strip :: "pystr \<Rightarrow> pystr" where
  "strip s = rstrip (lstrip s)"

text \<open>\<open>s[a:b]\<close> with Python's rules: a negative bound counts from the end, and both
  bounds are clamped to the string; an empty range gives the empty string.\<close>

definition slice_bound :: "nat \<Rightarrow> int \<Rightarrow> nat" where
  "slice_bound n a = (if a < 0 then nat (max (a + int n) 0) else min (nat a) n)"

definition py_slice :: "'a list \<Rightarrow> int \<Rightarrow> int \<Rightarrow> 'a list" where
  "py_slice s a b =
     (let lo = slice_bound (length s) a; hi = slice_bound (length s) b
      in take (hi - lo) (drop lo s))"

text \<open>\<open>s.rfind(sub)\<close>: the highest index at which \<open>sub\<close> occurs in \<open>s\<close>, or \<open>-1\<close>.\<close>

definition occurs_at :: "'a list \<Rightarrow> 'a list \<Rightarrow> nat \<Rightarrow> bool" where
  "occurs_at s sub i \<longleftrightarrow> take (length sub) (drop i s) = sub"

definition rfind :: "'a list \<Rightarrow> 'a list \<Rightarrow> int" where
  "rfind s sub =
     (case find (occurs_at s sub) (rev [0..<Suc (length s)]) of
        None \<Rightarrow> - 1
      | Some i \<Rightarrow> int i)"

text \<open>\<open>text.replace("\r\n", "\n").replace("\r", "\n")\<close>, one replacement after the other.\<close>

fun replace_crlf :: "pystr \<Rightarrow> pystr" where
  "replace_crlf [] = []"
| "replace_crlf [x] = [x]"
| "replace_crlf (x # y # xs) =
     (if x = CR \<and> y = LF then LF # replace_crlf xs else x # replace_crlf (y # xs))"

definition replace_cr :: "pystr \<Rightarrow> pystr" where
  "replace_cr s = map (\<lambda>c. if c = CR then LF else c) s"

definition normalize_newlines :: "pystr \<Rightarrow> pystr" where
  "normalize_newlines s = replace_cr (replace_crlf s)"

section \<open>Offset reconciler\<close>

text \<open>
  \<^verbatim>\<open>
  def _detect_global_span(local_value, chunk_start, chunk_end, chunk_size):
      if local_value < 0:
          return chunk_start
      if local_value > chunk_size * 1.5:
          return local_value
      return chunk_start + local_value
  \<close>
  Python compares an \<open>int\<close> with a \<open>float\<close> by value, and the double product
  \<open>chunk_size * 1.5\<close> is exact for every size below \<open>2^51\<close>, which the length of a
  string in memory is; the comparison is written over the integers as
  \<open>2 * local_value > 3 * chunk_size\<close>.
\<close>

definition detect_global_span :: "int \<Rightarrow> int \<Rightarrow> int \<Rightarrow> int \<Rightarrow> int" where
  "detect_global_span local_value chunk_start chunk_end chunk_size =
     (if local_value < 0 then chunk_start
      else if 2 * local_value > 3 * chunk_size then local_value
      else chunk_start + local_value)"

text \<open>
  The span of one oracle record, lines 314 to 323 of the assembler: both ends are
  reconciled, then the end is replaced when it does not exceed the start, the start is
  raised to the window start, the end is raised to the start, and the end is lowered to the
  window end, in this order.
\<close>

definition reconcile_span :: "int \<Rightarrow> int \<Rightarrow> int \<Rightarrow> int \<Rightarrow> int \<Rightarrow> int \<times> int" where
  "reconcile_span ls le text_len start_idx end_idx =
     (let chunk_size = end_idx - start_idx;
          gs = detect_global_span ls start_idx end_idx chunk_size;
          ge = detect_global_span le start_idx end_idx chunk_size;
          ge = (if ge \<le> gs then gs + text_len else ge);
          gs = (if gs < start_idx then start_idx else gs);
          ge = (if ge < gs then gs else ge);
          ge = (if ge > start_idx + chunk_size then start_idx + chunk_size else ge)
      in (gs, ge))"

section \<open>Fallback splitter\<close>

text \<open>
  \<^verbatim>\<open>
  def _split_fallback_chunk(text, cut_min, cut_max):
      spans = []
      normalized = text.replace("\r\n", "\n").replace("\r", "\n")
      length = len(normalized)
      cursor = 0
      while cursor < length:
          tentative_end = min(cursor + cut_max, length)
          split_point = tentative_end
          if tentative_end < length:
              window = normalized[cursor:tentative_end]
              candidates = [window.rfind("\n\n"), window.rfind(KUTEN), window.rfind(TOUTEN)]
              valid_candidates = [c for c in candidates if c >= cut_min - 1]
              if valid_candidates:
                  split_point = cursor + max(valid_candidates) + 1
          segment_raw = normalized[cursor:split_point]
          segment = segment_raw.strip()
          if segment:
              leading = len(segment_raw) - len(segment_raw.lstrip())
              trailing_end = len(segment_raw.rstrip())
              spans.append((cursor + leading, cursor + trailing_end, segment))
          cursor = split_point if split_point > cursor else tentative_end
      return spans
  \<close>
  The loop need not end (with \<open>cut_max \<le> 0\<close> the cursor stops advancing), so it is a
  partial function into \<open>option\<close>: \<open>None\<close> is a run that never returns. One iteration
  of the body is \<open>fallback_step\<close>, on the pair of the cursor and the spans appended so far.
\<close>

type_synonym span = "int \<times> int \<times> pystr"

definition tentative_end :: "pystr \<Rightarrow> int \<Rightarrow> int \<Rightarrow> int" where
  "tentative_end normalized cut_max cursor = min (cursor + cut_max) (int (length normalized))"

definition split_point :: "pystr \<Rightarrow> int \<Rightarrow> int \<Rightarrow> int \<Rightarrow> int" where
  "split_point normalized cut_min cut_max cursor =
     (let te = tentative_end normalized cut_max cursor
      in if te < int (length normalized) then
           (let window = py_slice normalized cursor te;
                candidates = [rfind window PARA, rfind window KUTEN, rfind window TOUTEN];
                valid_candidates = filter (\<lambda>c. c \<ge> cut_min - 1) candidates
            in case valid_candidates of
                 [] \<Rightarrow> te
               | c # cs \<Rightarrow> cursor + fold max cs c + 1)
         else te)"

definition fallback_step :: "pystr \<Rightarrow> int \<Rightarrow> int \<Rightarrow> int \<times> span list \<Rightarrow> int \<times> span list" where
  "fallback_step normalized cut_min cut_max st =
     (let cursor = fst st; spans = snd st;
          te = tentative_end normalized cut_max cursor;
          sp = split_point normalized cut_min cut_max cursor;
          segment_raw = py_slice normalized cursor sp;
          segment = strip segment_raw;
          leading = int (length segment_raw) - int (length (lstrip segment_raw));
          trailing_end = int (length (rstrip segment_raw));
          spans' = (if segment \<noteq> [] then spans @ [(cursor + leading, cursor + trailing_end, segment)]
                    else spans)
      in (if sp > cursor then sp else te, spans'))"

partial_function (option) fallback_loop ::
  "pystr \<Rightarrow> int \<Rightarrow> int \<Rightarrow> int \<times> span list \<Rightarrow> span list option" where
  "fallback_loop normalized cut_min cut_max st =
     (if fst st < int (length normalized)
      then fallback_loop normalized cut_min cut_max (fallback_step normalized cut_min cut_max st)
      else Some (snd st))"

declare fallback_loop.simps [code]

definition split_fallback_chunk :: "pystr \<Rightarrow> int \<Rightarrow> int \<Rightarrow> span list option" where
  "split_fallback_chunk text cut_min cut_max =
     fallback_loop (normalize_newlines text) cut_min cut_max (0, [])"

text \<open>A span of the fallback splitter that lies in the normalised text and carries the
  text it delimits.\<close>

definition span_in_text :: "pystr \<Rightarrow> span \<Rightarrow> bool" where
  "span_in_text normalized sp \<longleftrightarrow>
     0 \<le> fst sp \<and> fst sp < fst (snd sp) \<and> fst (snd sp) \<le> int (length normalized)
     \<and> snd (snd sp) = py_slice normalized (fst sp) (fst (snd sp))"

section \<open>Windowing\<close>

text \<open>
  \<^verbatim>\<open>
  def chunk_for_llm(text, window=WINDOW, overlap=OVERLAP):
      t = text.replace("\r\n", "\n").replace("\r", "\n")
      n = len(t)
      cuts = []
      i = 0
      while i < n:
          end = min(i + window, n)
          brk = t[i:end].rfind("\n\n")
          if brk >= int(window * 0.5):
              end = i + brk
          cuts.append({"start": i, "end": end})
          if end >= n:
              break
          next_i = max(i + 1, end - overlap)
          i = next_i
      return cuts
  \<close>
  A window is the pair of its start and its end. \<open>int(window * 0.5)\<close> halves and
  truncates towards zero (the double product is exact below \<open>2^53\<close>). The loop always
  ends, since the next start is at least \<open>i + 1\<close>.
\<close>

type_synonym window = "int \<times> int"

definition WINDOW :: int where "WINDOW = 2000"
definition OVERLAP :: int where "OVERLAP = 150"

definition int_half :: "int \<Rightarrow> int" where
  "int_half w = (if 0 \<le> w then w div 2 else - ((- w) div 2))"

definition snapped_end :: "pystr \<Rightarrow> int \<Rightarrow> int \<Rightarrow> int" where
  "snapped_end t window i =
     (let e = min (i + window) (int (length t));
          brk = rfind (py_slice t i e) PARA
      in if brk \<ge> int_half window then i + brk else e)"

function chunk_loop :: "pystr \<Rightarrow> int \<Rightarrow> int \<Rightarrow> int \<Rightarrow> window list" where
  "chunk_loop t window overlap i =
     (if i < int (length t) then
        (i, snapped_end t window i) #
          (if snapped_end t window i \<ge> int (length t) then []
           else chunk_loop t window overlap (max (i + 1) (snapped_end t window i - overlap)))
      else [])"
  by pat_completeness auto
termination
  by (relation "measure (\<lambda>(t, window, overlap, i). nat (int (length t) - i))") auto

declare chunk_loop.simps [simp del]

definition chunk_for_llm :: "pystr \<Rightarrow> int \<Rightarrow> int \<Rightarrow> window list" where
  "chunk_for_llm text window overlap = chunk_loop (normalize_newlines text) window overlap 0"

section \<open>Decoded JSON values and the library functions taken as parameters\<close>

text \<open>
  The values \<open>json.loads\<close> returns: \<open>None\<close>, booleans, integers, floats (a finite
  float by its rational value, \<open>NaN\<close> and the infinities apart), strings, lists and
  dictionaries. A dictionary is the list of its items in insertion order; \<open>json.loads\<close>
  builds it with each key once.
\<close>

datatype json =
  JNull | JBool bool | JInt int | JFloat rat | JNaN | JInf
  | JStr pystr | JArr "json list" | JObj "(pystr \<times> json) list"

text \<open>
  Functions of Python's standard library that the program calls and that are not part of
  the repository are parameters of the model: \<open>json.loads\<close> (\<open>None\<close> when it raises),
  \<open>int\<close> on a string (\<open>None\<close> when it raises \<open>ValueError\<close>), \<open>str\<close> on a decoded value
  that is not a string, the SHA-1 hex digest of the UTF-8 encoding of a text, and
  \<open>str.lower\<close>. Texts are sequences of Unicode scalar values, which always encode.
\<close>

record pylib =
  json_loads :: "pystr \<Rightarrow> json option"
  int_of_str :: "pystr \<Rightarrow> int option"
  repr_of :: "json \<Rightarrow> pystr"
  sha1_hex :: "pystr \<Rightarrow> pystr"
  lower :: "pystr \<Rightarrow> pystr"

text \<open>Truth value of a decoded value, as \<open>if x\<close>, \<open>not x\<close> and \<open>x or y\<close> test it.\<close>

fun truthy :: "json \<Rightarrow> bool" where
  "truthy JNull = False"
| "truthy (JBool b) = b"
| "truthy (JInt i) = (i \<noteq> 0)"
| "truthy (JFloat q) = (q \<noteq> 0)"
| "truthy JNaN = True"
| "truthy JInf = True"
| "truthy (JStr s) = (s \<noteq> [])"
| "truthy (JArr xs) = (xs \<noteq> [])"
| "truthy (JObj kvs) = (kvs \<noteq> [])"

definition py_or :: "json \<Rightarrow> json \<Rightarrow> json" where
  "py_or x y = (if truthy x then x else y)"

text \<open>\<open>d.get(key, default)\<close>: only a dictionary has the method.\<close>

definition py_get :: "json \<Rightarrow> pystr \<Rightarrow> json \<Rightarrow> exn + json" where
  "py_get d key dflt =
     (case d of
        JObj kvs \<Rightarrow> Inr (case map_of kvs key of None \<Rightarrow> dflt | Some v \<Rightarrow> v)
      | _ \<Rightarrow> Inl AttributeError)"

text \<open>\<open>x.strip()\<close>: only a string has the method.\<close>

definition py_strip :: "json \<Rightarrow> exn + pystr" where
  "py_strip x = (case x of JStr s \<Rightarrow> Inr (strip s) | _ \<Rightarrow> Inl AttributeError)"

text \<open>\<open>(d.get(key) or "").strip()\<close>, the way every text field is read.\<close>

definition get_stripped :: "json \<Rightarrow> pystr \<Rightarrow> exn + pystr" where
  "get_stripped d key =
     (case py_get d key JNull of
        Inl e \<Rightarrow> Inl e
      | Inr v \<Rightarrow> py_strip (py_or v (JStr [])))"

text \<open>\<open>int(x)\<close> on a decoded value; a float is truncated towards zero.\<close>

definition py_int :: "pylib \<Rightarrow> json \<Rightarrow> exn + int" where
  "py_int lib x =
     (case x of
        JInt i \<Rightarrow> Inr i
      | JBool b \<Rightarrow> Inr (if b then 1 else 0)
      | JFloat q \<Rightarrow> Inr (if 0 \<le> q then \<lfloor>q\<rfloor> else \<lceil>q\<rceil>)
      | JNaN \<Rightarrow> Inl ValueError
      | JInf \<Rightarrow> Inl OverflowError
      | JStr s \<Rightarrow> (case int_of_str lib s of None \<Rightarrow> Inl ValueError | Some i \<Rightarrow> Inr i)
      | _ \<Rightarrow> Inl TypeError)"

text \<open>\<open>str(x)\<close> on a decoded value.\<close>

definition py_str :: "pylib \<Rightarrow> json \<Rightarrow> pystr" where
  "py_str lib x = (case x of JStr s \<Rightarrow> s | _ \<Rightarrow> repr_of lib x)"

text \<open>Iteration over a decoded value: a list gives its elements, a dictionary its keys, a
  string its characters; the others are not iterable.\<close>

definition py_iter :: "json \<Rightarrow> exn + json list" where
  "py_iter x =
     (case x of
        JArr xs \<Rightarrow> Inr xs
      | JObj kvs \<Rightarrow> Inr (map (\<lambda>kv. JStr (fst kv)) kvs)
      | JStr s \<Rightarrow> Inr (map (\<lambda>c. JStr [c]) s)
      | _ \<Rightarrow> Inl TypeError)"

section \<open>Oracle response parsers\<close>

text \<open>
  \<^verbatim>\<open>
  JSON_ARRAY_EXTRACT = re.compile(r"\[\s*{.*}\s*\]", re.DOTALL)
  JSON_OBJECT_EXTRACT = re.compile(r"\{\s*\".*", re.DOTALL)

  def _safe_json_loads(raw):
      txt = (raw or "").strip()
      if txt.startswith(FENCE):
          txt = re.sub(r"^FENCE[a-zA-Z]*\n", "", txt)
          txt = re.sub(r"\nFENCE$", "", txt)
      match = JSON_ARRAY_EXTRACT.search(txt)
      if match:
          txt = match.group(0)
      try:
          data = json.loads(txt)
          return data if isinstance(data, list) else None
      except Exception:
          return None

  def _safe_json_object(raw):
      txt = (raw or "").strip()
      if txt.startswith(FENCE):
          txt = re.sub(r"^FENCE[a-zA-Z]*\n", "", txt)
          txt = re.sub(r"\nFENCE$", "", txt)
      try:
          data = json.loads(txt)
          return data if isinstance(data, dict) else None
      except Exception:
          return None
  \<close>
  where \<open>FENCE\<close> stands for three backquotes. \<open>JSON_OBJECT_EXTRACT\<close> is compiled and
  never used. The three regular expressions are modelled by the searches they perform.
\<close>

definition FENCE :: pystr where "FENCE = [96, 96, 96]"

definition startswith :: "pystr \<Rightarrow> pystr \<Rightarrow> bool" where
  "startswith s pre \<longleftrightarrow> take (length pre) s = pre"

definition endswith :: "pystr \<Rightarrow> pystr \<Rightarrow> bool" where
  "endswith s suf \<longleftrightarrow> length suf \<le> length s \<and> drop (length s - length suf) s = suf"

definition is_ascii_letter :: "uchar \<Rightarrow> bool" where
  "is_ascii_letter c \<longleftrightarrow> (65 \<le> c \<and> c \<le> 90) \<or> (97 \<le> c \<and> c \<le> 122)"

text \<open>The first substitution removes, at the very start, the three backquotes, the letters
  after them and the newline that must follow the letters.\<close>

definition sub_fence_open :: "pystr \<Rightarrow> pystr" where
  "sub_fence_open txt =
     (if startswith txt FENCE then
        (case dropWhile is_ascii_letter (drop 3 txt) of
           [] \<Rightarrow> txt
         | c # rest \<Rightarrow> if c = LF then rest else txt)
      else txt)"

text \<open>The second substitution removes a newline and three backquotes at the end of the
  text; \<open>$\<close> also matches just before a newline that ends the text.\<close>

definition sub_fence_close :: "pystr \<Rightarrow> pystr" where
  "sub_fence_close txt =
     (if endswith txt (LF # FENCE) then take (length txt - 4) txt
      else if endswith txt (LF # FENCE @ [LF]) then take (length txt - 5) txt @ [LF]
      else txt)"

definition strip_fence :: "pystr \<Rightarrow> pystr" where
  "strip_fence raw =
     (let txt = strip raw
      in if startswith txt FENCE then sub_fence_close (sub_fence_open txt) else txt)"

text \<open>
  \<open>JSON_ARRAY_EXTRACT.search\<close>: the match starts at the leftmost \<open>[\<close> that is followed,
  after whitespace, by \<open>{\<close>, and after which some \<open>}\<close> is followed, after whitespace, by
  \<open>]\<close>; the greedy \<open>.*\<close> (which matches newlines too) extends it to the last such
  \<open>}\<close>. \<open>closes_array txt k\<close>: a \<open>}\<close> at index \<open>k\<close> with whitespace and \<open>]\<close> after it.
\<close>

definition skip_space :: "pystr \<Rightarrow> nat \<Rightarrow> nat" where
  "skip_space txt i = i + length (takeWhile is_space (drop i txt))"

definition char_at :: "pystr \<Rightarrow> nat \<Rightarrow> uchar \<Rightarrow> bool" where
  "char_at txt i c \<longleftrightarrow> i < length txt \<and> txt ! i = c"

definition closes_array :: "pystr \<Rightarrow> nat \<Rightarrow> bool" where
  "closes_array txt k \<longleftrightarrow> char_at txt k 125 \<and> char_at txt (skip_space txt (Suc k)) 93"

definition array_match_end :: "pystr \<Rightarrow> nat \<Rightarrow> nat option" where
  "array_match_end txt i =
     (if char_at txt i 91 \<and> char_at txt (skip_space txt (Suc i)) 123 then
        (case filter (closes_array txt) (rev [Suc (skip_space txt (Suc i))..<length txt]) of
           [] \<Rightarrow> None
         | k # _ \<Rightarrow> Some (Suc (skip_space txt (Suc k))))
      else None)"

definition array_extract :: "pystr \<Rightarrow> pystr option" where
  "array_extract txt =
     (case find (\<lambda>i. array_match_end txt i \<noteq> None) [0..<length txt] of
        None \<Rightarrow> None
      | Some i \<Rightarrow>
          (case array_match_end txt i of
             None \<Rightarrow> None
           | Some e \<Rightarrow> Some (take (e - i) (drop i txt))))"


definition list_or_none :: "json option \<Rightarrow> json list option" where
  \<comment> \<open>\<open>data if isinstance(data, list) else None\<close>, and \<open>None\<close> when the decoder raised\<close>
  "list_or_none r = (case r of Some (JArr xs) \<Rightarrow> Some xs | _ \<Rightarrow> None)"

definition dict_or_none :: "json option \<Rightarrow> (pystr \<times> json) list option" where
  "dict_or_none r = (case r of Some (JObj kvs) \<Rightarrow> Some kvs | _ \<Rightarrow> None)"

definition safe_json_loads :: "pylib \<Rightarrow> pystr \<Rightarrow> json list option" where
  "safe_json_loads lib raw =
     (let txt = strip_fence raw;
          txt = (case array_extract txt of Some m \<Rightarrow> m | None \<Rightarrow> txt)
      in list_or_none (json_loads lib txt))"

definition safe_json_object :: "pylib \<Rightarrow> pystr \<Rightarrow> (pystr \<times> json) list option" where
  "safe_json_object lib raw = dict_or_none (json_loads lib (strip_fence raw))"

section \<open>A decoder for the examples\<close>

text \<open>
  The examples below need the value of \<open>json.loads\<close> on a few texts. \<open>sample_lib\<close> decodes
  exactly the texts listed in \<open>sample_decodings\<close>, each to the value \<open>json.loads\<close> gives
  for it, and rejects every other text; the examples pass it no other text that
  \<open>json.loads\<close> would accept. Its other functions are placeholders, and no example
  states a result that depends on them.
\<close>

definition sample_decodings :: "(pystr \<times> json) list" where
  "sample_decodings =
     [(ustr ''{\"a\":1}'', JObj [(ustr ''a'', JInt 1)]),
      (ustr ''[{\"a\":1}]'', JArr [JObj [(ustr ''a'', JInt 1)]]),
      (ustr ''[[{\"a\":1}],2]'', JArr [JArr [JObj [(ustr ''a'', JInt 1)]], JInt 2]),
      (ustr ''[{\"text\":\"abc\",\"source_local_span\":{\"start\":50,\"end\":60}}]'',
       JArr [JObj [(ustr ''text'', JStr (ustr ''abc'')),
                   (ustr ''source_local_span'',
                    JObj [(ustr ''start'', JInt 50), (ustr ''end'', JInt 60)])]]),
      (ustr ''[{\"text\":\"ab\"},{\"text\":7}]'',
       JArr [JObj [(ustr ''text'', JStr (ustr ''ab''))], JObj [(ustr ''text'', JInt 7)]]),
      (ustr ''{\"characters\":[{\"name\":\"Al\",\"description\":\"\"}]}'',
       JObj [(ustr ''characters'',
              JArr [JObj [(ustr ''name'', JStr (ustr ''Al'')),
                          (ustr ''description'', JStr [])]])]),
      (ustr ''{\"characters\":[{\"name\":\"Al\",\"description\":\"x\"}]}'',
       JObj [(ustr ''characters'',
              JArr [JObj [(ustr ''name'', JStr (ustr ''Al'')),
                          (ustr ''description'', JStr (ustr ''x''))]])])]"

definition sample_lib :: pylib where
  "sample_lib =
     \<lparr>json_loads = map_of sample_decodings,
      int_of_str = (\<lambda>s. None),
      repr_of = (\<lambda>x. []),
      sha1_hex = (\<lambda>s. []),
      lower = (\<lambda>s. s)\<rparr>"

section \<open>Relationship reducer\<close>

text \<open>
  \<^verbatim>\<open>
  def _call_graph_chunk(client, chunk_text):
      resp = client.chat.completions.create(...)
      raw = (resp.choices[0].message.content or "").strip()
      return _safe_json_object(raw)

  def generate_character_graph_dot(client, full_text):
      if not full_text or not full_text.strip():
          return "", [], {}
      chunks = chunk_for_llm(full_text, WINDOW, OVERLAP)
      nodes = {}
      edges = {}
      for ch in chunks:
          chunk_text = full_text[ch["start"]:ch["end"]]
          data = _call_graph_chunk(client, chunk_text)
          if not data:
              continue
          for char in data.get("characters", []):
              name = (char.get("name") or "").strip()
              if not name:
                  continue
              desc = (char.get("description") or "").strip()
              if name not in nodes or (desc and not nodes[name]):
                  nodes[name] = desc
          for rel in data.get("relationships", []):
              src = (rel.get("source") or "").strip()
              tgt = (rel.get("target") or "").strip()
              label = (rel.get("label") or "").strip() or KANKEI
              if not src or not tgt or src.lower() == tgt.lower():
                  continue
              key = (src, tgt)
              edges.setdefault(key, set()).add(label)
      if not nodes and not edges:
          return "", [], {}
      node_names = sorted(set(list(nodes.keys()) + [s for s, _ in edges.keys()]
                              + [t for _, t in edges.keys()]))
      ...
      return dot_text, node_names, {name: nodes.get(name, "") for name in node_names}
  \<close>
  The oracle is a function of the number of the call and of the window text, which returns
  the content of the reply (possibly \<open>None\<close>) or raises. A dictionary of the program is
  an association list in insertion order. Nothing here catches an exception. The text in
  the graph-description language is not modelled; the node names and the descriptions are.
\<close>

type_synonym client = "nat \<Rightarrow> pystr \<Rightarrow> exn + pystr option"
type_synonym nodes = "(pystr \<times> pystr) list"
type_synonym edges = "((pystr \<times> pystr) \<times> pystr set) list"

definition KANKEI :: pystr where "KANKEI = [38306, 20418]"

definition reply_text :: "pystr option \<Rightarrow> pystr" where
  \<comment> \<open>\<open>(content or "").strip()\<close>\<close>
  "reply_text content = strip (case content of None \<Rightarrow> [] | Some s \<Rightarrow> s)"

definition call_graph_chunk ::
  "pylib \<Rightarrow> client \<Rightarrow> nat \<Rightarrow> pystr \<Rightarrow> exn + (pystr \<times> json) list option" where
  "call_graph_chunk lib client idx chunk_text =
     (case client idx chunk_text of
        Inl ex \<Rightarrow> Inl ex
      | Inr content \<Rightarrow> Inr (safe_json_object lib (reply_text content)))"

text \<open>The name and the description read from one character record: \<open>None\<close> when the
  name is empty and the record is skipped.\<close>

definition char_mention :: "json \<Rightarrow> exn + (pystr \<times> pystr) option" where
  "char_mention char =
     (case get_stripped char (ustr ''name'') of
        Inl ex \<Rightarrow> Inl ex
      | Inr name \<Rightarrow>
          if name = [] then Inr None
          else (case get_stripped char (ustr ''description'') of
                  Inl ex \<Rightarrow> Inl ex
                | Inr desc \<Rightarrow> Inr (Some (name, desc))))"

definition merge_mention :: "nodes \<Rightarrow> pystr \<times> pystr \<Rightarrow> nodes" where
  "merge_mention nodes m =
     (let name = fst m; desc = snd m
      in if map_of nodes name = None \<or> (desc \<noteq> [] \<and> map_of nodes name = Some [])
         then AList.update name desc nodes else nodes)"

fun merge_characters :: "nodes \<Rightarrow> json list \<Rightarrow> exn + nodes" where
  "merge_characters nodes [] = Inr nodes"
| "merge_characters nodes (char # chars) =
     (case char_mention char of
        Inl ex \<Rightarrow> Inl ex
      | Inr None \<Rightarrow> merge_characters nodes chars
      | Inr (Some m) \<Rightarrow> merge_characters (merge_mention nodes m) chars)"

definition rel_mention :: "pylib \<Rightarrow> json \<Rightarrow> exn + ((pystr \<times> pystr) \<times> pystr) option" where
  "rel_mention lib rel =
     (case get_stripped rel (ustr ''source'') of
        Inl ex \<Rightarrow> Inl ex
      | Inr src \<Rightarrow>
     (case get_stripped rel (ustr ''target'') of
        Inl ex \<Rightarrow> Inl ex
      | Inr tgt \<Rightarrow>
     (case get_stripped rel (ustr ''label'') of
        Inl ex \<Rightarrow> Inl ex
      | Inr lab \<Rightarrow>
          (let label = (if lab = [] then KANKEI else lab)
           in if src = [] \<or> tgt = [] \<or> lower lib src = lower lib tgt then Inr None
              else Inr (Some ((src, tgt), label))))))"

definition add_edge :: "edges \<Rightarrow> (pystr \<times> pystr) \<times> pystr \<Rightarrow> edges" where
  "add_edge edges m =
     AList.update (fst m)
       (insert (snd m) (case map_of edges (fst m) of None \<Rightarrow> {} | Some labels \<Rightarrow> labels))
       edges"

fun merge_relationships :: "pylib \<Rightarrow> edges \<Rightarrow> json list \<Rightarrow> exn + edges" where
  "merge_relationships lib edges [] = Inr edges"
| "merge_relationships lib edges (rel # rels) =
     (case rel_mention lib rel of
        Inl ex \<Rightarrow> Inl ex
      | Inr None \<Rightarrow> merge_relationships lib edges rels
      | Inr (Some m) \<Rightarrow> merge_relationships lib (add_edge edges m) rels)"

text \<open>The body of the loop for one window, given what \<open>_call_graph_chunk\<close> returned.\<close>

definition reduce_window ::
  "pylib \<Rightarrow> nodes \<times> edges \<Rightarrow> (pystr \<times> json) list option \<Rightarrow> exn + nodes \<times> edges" where
  "reduce_window lib st data =
     (case data of
        None \<Rightarrow> Inr st
      | Some kvs \<Rightarrow>
          if kvs = [] then Inr st
          else
     (case py_get (JObj kvs) (ustr ''characters'') (JArr []) of
        Inl ex \<Rightarrow> Inl ex
      | Inr cv \<Rightarrow>
     (case py_iter cv of
        Inl ex \<Rightarrow> Inl ex
      | Inr chars \<Rightarrow>
     (case merge_characters (fst st) chars of
        Inl ex \<Rightarrow> Inl ex
      | Inr nodes \<Rightarrow>
     (case py_get (JObj kvs) (ustr ''relationships'') (JArr []) of
        Inl ex \<Rightarrow> Inl ex
      | Inr rv \<Rightarrow>
     (case py_iter rv of
        Inl ex \<Rightarrow> Inl ex
      | Inr rels \<Rightarrow>
     (case merge_relationships lib (snd st) rels of
        Inl ex \<Rightarrow> Inl ex
      | Inr edges \<Rightarrow> Inr (nodes, edges))))))))"

fun graph_loop ::
  "pylib \<Rightarrow> client \<Rightarrow> pystr \<Rightarrow> nodes \<times> edges \<Rightarrow> nat \<Rightarrow> window list \<Rightarrow> exn + nodes \<times> edges" where
  "graph_loop lib client full_text st idx [] = Inr st"
| "graph_loop lib client full_text st idx (ch # chunks) =
     (case call_graph_chunk lib client idx (py_slice full_text (fst ch) (snd ch)) of
        Inl ex \<Rightarrow> Inl ex
      | Inr data \<Rightarrow>
          (case reduce_window lib st data of
             Inl ex \<Rightarrow> Inl ex
           | Inr st' \<Rightarrow> graph_loop lib client full_text st' (Suc idx) chunks))"

definition generate_character_graph ::
  "pylib \<Rightarrow> client \<Rightarrow> pystr \<Rightarrow> exn + pystr list \<times> (pystr \<times> pystr) list" where
  "generate_character_graph lib client full_text =
     (if full_text = [] \<or> strip full_text = [] then Inr ([], [])
      else
        (case graph_loop lib client full_text ([], []) 1 (chunk_for_llm full_text WINDOW OVERLAP) of
           Inl ex \<Rightarrow> Inl ex
         | Inr (nodes, edges) \<Rightarrow>
             if nodes = [] \<and> edges = [] then Inr ([], [])
             else
               (let node_names =
                      sort (remdups (map fst nodes @ map (\<lambda>e. fst (fst e)) edges
                                     @ map (\<lambda>e. snd (fst e)) edges))
                in Inr (node_names,
                        map (\<lambda>name. (name, case map_of nodes name of None \<Rightarrow> [] | Some d \<Rightarrow> d))
                          node_names))))"

text \<open>
  The specification's reduction of the character descriptions, to state what the code
  computes: the mentions of a list of character records, and the first description that is
  not empty among the mentions of a name.
\<close>

fun mentions :: "json list \<Rightarrow> (pystr \<times> pystr) list" where
  "mentions [] = []"
| "mentions (char # chars) =
     (case char_mention char of
        Inr (Some m) \<Rightarrow> m # mentions chars
      | _ \<Rightarrow> mentions chars)"

definition first_description :: "pystr \<Rightarrow> (pystr \<times> pystr) list \<Rightarrow> pystr" where
  "first_description name ms =
     (case find (\<lambda>m. fst m = name \<and> snd m \<noteq> []) ms of
        None \<Rightarrow> []
      | Some m \<Rightarrow> snd m)"

definition merged_description :: "nodes \<Rightarrow> (pystr \<times> pystr) list \<Rightarrow> pystr \<Rightarrow> pystr option" where
  "merged_description nodes ms name =
     (case map_of nodes name of
        Some d \<Rightarrow> Some (if d \<noteq> [] then d else first_description name ms)
      | None \<Rightarrow> if name \<in> fst ` set ms then Some (first_description name ms) else None)"

text \<open>The mentions of one window, and of all the windows of a run in order.\<close>

definition window_mentions :: "(pystr \<times> json) list option \<Rightarrow> (pystr \<times> pystr) list" where
  "window_mentions data =
     (case data of
        None \<Rightarrow> []
      | Some kvs \<Rightarrow>
          if kvs = [] then []
          else (case py_get (JObj kvs) (ustr ''characters'') (JArr []) of
                  Inl ex \<Rightarrow> []
                | Inr cv \<Rightarrow> (case py_iter cv of Inl ex \<Rightarrow> [] | Inr chars \<Rightarrow> mentions chars)))"

fun all_mentions ::
  "pylib \<Rightarrow> client \<Rightarrow> pystr \<Rightarrow> nat \<Rightarrow> window list \<Rightarrow> (pystr \<times> pystr) list" where
  "all_mentions lib client full_text idx [] = []"
| "all_mentions lib client full_text idx (ch # chunks) =
     (case call_graph_chunk lib client idx (py_slice full_text (fst ch) (snd ch)) of
        Inl ex \<Rightarrow> []
      | Inr data \<Rightarrow> window_mentions data)
     @ all_mentions lib client full_text (Suc idx) chunks"

section \<open>Cut assembler\<close>

text \<open>A \<open>Panel\<close> of the program. The label fields hold whatever value the oracle record
  has for them.\<close>

record panel =
  panel_id :: pystr
  panel_text :: pystr
  panel_type :: json
  panel_speaker :: json
  panel_speakers :: "pystr list option"
  panel_time :: json
  panel_location :: json
  panel_scene :: json
  panel_tone :: json
  panel_emotion :: json
  panel_action :: json
  panel_entities :: json
  source_span :: "int \<times> int"
  checksum :: pystr

text \<open>\<open>f"c{str(cut_counter).zfill(4)}"\<close>: the decimal digits of the counter, padded with
  zeros on the left to four characters, after the letter \<open>c\<close>.\<close>

fun str_nat :: "nat \<Rightarrow> pystr" where
  "str_nat n = (if n < 10 then [48 + n] else str_nat (n div 10) @ [48 + n mod 10])"

declare str_nat.simps [simp del]

definition zfill :: "nat \<Rightarrow> pystr \<Rightarrow> pystr" where
  "zfill width s = replicate (width - length s) 48 @ s"

definition cut_id :: "nat \<Rightarrow> pystr" where
  "cut_id cut_counter = 99 # zfill 4 (str_nat cut_counter)"


text \<open>\<open>item.get(key, default)\<close> on the items of a record known to be a dictionary.\<close>

definition field :: "(pystr \<times> json) list \<Rightarrow> string \<Rightarrow> json \<Rightarrow> json" where
  "field kvs key dflt = (case map_of kvs (ustr key) of None \<Rightarrow> dflt | Some v \<Rightarrow> v)"

text \<open>
  The speaker list of a record, lines 325 to 331: a single name is made a list, an absent
  or empty value is replaced by the \<open>speaker\<close> field, and the names are converted to
  strings, stripped, and kept when not empty. A number or \<open>True\<close> is not iterable.
\<close>

definition speakers_clean :: "pylib \<Rightarrow> (pystr \<times> json) list \<Rightarrow> exn + pystr list" where
  "speakers_clean lib kvs =
     (let raw_speakers = field kvs ''speakers'' JNull;
          raw_speakers = (case raw_speakers of JStr s \<Rightarrow> JArr [JStr s] | _ \<Rightarrow> raw_speakers);
          raw_speakers =
            (if \<not> truthy raw_speakers then
               (let fallback_speaker = field kvs ''speaker'' (JStr [])
                in if truthy fallback_speaker then JArr [fallback_speaker] else JArr [])
             else raw_speakers)
      in case py_iter (py_or raw_speakers (JArr [])) of
           Inl ex \<Rightarrow> Inl ex
         | Inr ss \<Rightarrow>
             Inr (map (\<lambda>s. strip (py_str lib s))
                    (filter (\<lambda>s. strip (py_str lib s) \<noteq> []) ss)))"

text \<open>The panel built from an oracle record, lines 332 to 350, once its text, its span and
  its speakers are known.\<close>

definition oracle_panel ::
  "pylib \<Rightarrow> (pystr \<times> json) list \<Rightarrow> nat \<Rightarrow> pystr \<Rightarrow> int \<times> int \<Rightarrow> pystr list \<Rightarrow> panel" where
  "oracle_panel lib kvs cut_counter text_local gspan speakers =
     \<lparr>panel_id = cut_id cut_counter,
      panel_text = text_local,
      panel_type = field kvs ''type'' (JStr (ustr ''unknown'')),
      panel_speaker =
        (case speakers of
           s # _ \<Rightarrow> JStr s
         | [] \<Rightarrow> py_or (field kvs ''speaker'' (JStr (ustr ''unknown'')))
                   (JStr (ustr ''unknown''))),
      panel_speakers = (if speakers = [] then None else Some speakers),
      panel_time = field kvs ''time'' (JStr (ustr ''unknown'')),
      panel_location = field kvs ''location'' (field kvs ''scene'' (JStr [])),
      panel_scene = field kvs ''scene'' (field kvs ''location'' (JStr [])),
      panel_tone = field kvs ''tone'' (JStr (ustr ''neutral'')),
      panel_emotion = field kvs ''emotion'' (JStr (ustr ''neutral'')),
      panel_action = field kvs ''action'' (JStr []),
      panel_entities = py_or (field kvs ''entities'' (JArr [])) (JArr []),
      source_span = gspan,
      checksum = ustr ''sha1:'' @ sha1_hex lib text_local\<rparr>"

text \<open>The integer read from one end of \<open>source_local_span\<close>:
  \<open>int(loc.get(key, default))\<close>.\<close>

definition span_end :: "pylib \<Rightarrow> json \<Rightarrow> string \<Rightarrow> int \<Rightarrow> exn + int" where
  "span_end lib loc key dflt =
     (case py_get loc (ustr key) (JInt dflt) of
        Inl ex \<Rightarrow> Inl ex
      | Inr v \<Rightarrow> py_int lib v)"

text \<open>
  One iteration of \<open>for item in data\<close>, lines 305 to 350: the panel to append, \<open>None\<close>
  when the record is skipped for its empty text, or the exception raised before anything
  is appended. Only a dictionary has \<open>get\<close>, so a record that is not one raises at once.
\<close>

definition label_item ::
  "pylib \<Rightarrow> int \<Rightarrow> int \<Rightarrow> int \<Rightarrow> nat \<Rightarrow> json \<Rightarrow> exn + panel option" where
  "label_item lib cut_max start_idx end_idx cut_counter item =
     (case item of
        JObj kvs \<Rightarrow>
     (case py_strip (py_or (field kvs ''text'' JNull) (JStr [])) of
        Inl ex \<Rightarrow> Inl ex
      | Inr text0 \<Rightarrow>
          if text0 = [] then Inr None
          else
            (let text_local =
                   (if int (length text0) > cut_max then py_slice text0 0 cut_max else text0);
                 loc = field kvs ''source_local_span'' (JObj [])
             in
     (case span_end lib loc ''start'' 0 of
        Inl ex \<Rightarrow> Inl ex
      | Inr ls \<Rightarrow>
     (case span_end lib loc ''end'' (ls + int (length text_local)) of
        Inl ex \<Rightarrow> Inl ex
      | Inr le \<Rightarrow>
     (case speakers_clean lib kvs of
        Inl ex \<Rightarrow> Inl ex
      | Inr speakers \<Rightarrow>
          Inr (Some (oracle_panel lib kvs cut_counter text_local
                       (reconcile_span ls le (int (length text_local)) start_idx end_idx)
                       speakers)))))))
      | _ \<Rightarrow> Inl AttributeError)"

text \<open>The state of the run is the list of panels and the counter. A record that raises
  ends the loop over the records; the panels appended before it stay.\<close>

type_synonym asm_state = "panel list \<times> nat"

fun label_items ::
  "pylib \<Rightarrow> int \<Rightarrow> int \<Rightarrow> int \<Rightarrow> json list \<Rightarrow> asm_state \<Rightarrow> asm_state \<times> exn option" where
  "label_items lib cut_max start_idx end_idx [] st = (st, None)"
| "label_items lib cut_max start_idx end_idx (item # items) st =
     (case label_item lib cut_max start_idx end_idx (snd st) item of
        Inl ex \<Rightarrow> (st, Some ex)
      | Inr None \<Rightarrow> label_items lib cut_max start_idx end_idx items st
      | Inr (Some p) \<Rightarrow>
          label_items lib cut_max start_idx end_idx items (fst st @ [p], Suc (snd st)))"

text \<open>The body of the \<open>try\<close>, lines 293 to 351: the oracle call, the parser, the test
  \<open>if not data: raise ValueError\<close> and the loop over the records. The result is the state
  and the exception that left the body, if any.\<close>

definition try_oracle ::
  "pylib \<Rightarrow> client \<Rightarrow> int \<Rightarrow> nat \<Rightarrow> int \<Rightarrow> int \<Rightarrow> pystr \<Rightarrow> asm_state \<Rightarrow> asm_state \<times> exn option"
  where
  "try_oracle lib client cut_max idx start_idx end_idx chunk_text st =
     (case client idx chunk_text of
        Inl ex \<Rightarrow> (st, Some ex)
      | Inr content \<Rightarrow>
          (case safe_json_loads lib (reply_text content) of
             None \<Rightarrow> (st, Some ValueError)
           | Some data \<Rightarrow>
               if data = [] then (st, Some ValueError)
               else label_items lib cut_max start_idx end_idx data st))"

text \<open>
  The handler, lines 355 to 363:
  \<^verbatim>\<open>
  except Exception as ex:
      try:
          import openai
          if hasattr(openai, "AuthenticationError") and isinstance(ex, openai.AuthenticationError):
              st.error(...)
              logger.exception(...)
              raise
      except Exception:
          pass
  \<close>
  \<open>auth_guard\<close> is the body of the inner \<open>try\<close>, which re-raises an authentication error;
  \<open>except_pass\<close> is the inner \<open>except Exception: pass\<close> around it: whatever the body
  raises is caught there, and the statement completes normally. An exception that left
  the inner statement would leave the handler and the function.
\<close>

definition auth_guard :: "exn \<Rightarrow> exn + unit" where
  "auth_guard ex = (if ex = AuthenticationError then Inl ex else Inr ())"

definition except_pass :: "exn + unit \<Rightarrow> exn + unit" where
  "except_pass r = (case r of Inl ex \<Rightarrow> Inr () | Inr u \<Rightarrow> Inr u)"

text \<open>The fallback, lines 365 to 397: the segments of the splitter, or the whole stripped
  window when the splitter returns none, each appended as a narration panel.\<close>

definition fallback_panel :: "pylib \<Rightarrow> int \<Rightarrow> int \<Rightarrow> nat \<Rightarrow> int \<Rightarrow> pystr \<Rightarrow> panel" where
  "fallback_panel lib start_idx chunk_size cut_counter local_start segment_text =
     \<lparr>panel_id = cut_id cut_counter,
      panel_text = segment_text,
      panel_type = JStr (ustr ''narration''),
      panel_speaker = JStr (ustr ''unknown''),
      panel_speakers = None,
      panel_time = JStr (ustr ''unknown''),
      panel_location = JStr [],
      panel_scene = JStr [],
      panel_tone = JStr (ustr ''neutral''),
      panel_emotion = JStr (ustr ''neutral''),
      panel_action = JStr [],
      panel_entities = JArr [],
      source_span =
        (start_idx + local_start,
         min (start_idx + local_start + int (length segment_text)) (start_idx + chunk_size)),
      checksum = ustr ''sha1:'' @ sha1_hex lib segment_text\<rparr>"

fun fallback_emit :: "pylib \<Rightarrow> int \<Rightarrow> int \<Rightarrow> span list \<Rightarrow> asm_state \<Rightarrow> asm_state" where
  "fallback_emit lib start_idx chunk_size [] st = st"
| "fallback_emit lib start_idx chunk_size (seg # segs) st =
     (let local_start = fst seg; segment_text = strip (snd (snd seg))
      in if segment_text = [] then fallback_emit lib start_idx chunk_size segs st
         else fallback_emit lib start_idx chunk_size segs
                (fst st @ [fallback_panel lib start_idx chunk_size (snd st) local_start segment_text],
                 Suc (snd st)))"

definition fallback_segments :: "pystr \<Rightarrow> int \<Rightarrow> int \<Rightarrow> span list option" where
  "fallback_segments chunk_text cut_min cut_max =
     (case split_fallback_chunk chunk_text cut_min cut_max of
        None \<Rightarrow> None
      | Some segs \<Rightarrow>
          if segs = [] then
            (let stripped = strip chunk_text
             in if stripped \<noteq> [] then
                  Some [(int (length chunk_text) - int (length (lstrip chunk_text)),
                         int (length (rstrip chunk_text)), stripped)]
                else Some [])
          else Some segs)"

definition except_handler ::
  "pylib \<Rightarrow> int \<Rightarrow> int \<Rightarrow> int \<Rightarrow> int \<Rightarrow> pystr \<Rightarrow> exn \<Rightarrow> asm_state \<Rightarrow> (exn + asm_state) option"
  where
  "except_handler lib cut_min cut_max start_idx chunk_size chunk_text ex st =
     (case except_pass (auth_guard ex) of
        Inl ex' \<Rightarrow> Some (Inl ex')
      | Inr u \<Rightarrow>
          (case fallback_segments chunk_text cut_min cut_max of
             None \<Rightarrow> None
           | Some segs \<Rightarrow> Some (Inr (fallback_emit lib start_idx chunk_size segs st))))"

text \<open>One window, and the loop over the windows (\<open>enumerate(chunks, start=1)\<close>). \<open>None\<close>
  is a run that does not return, which only the fallback splitter could cause; \<open>Inl\<close> is
  an exception that leaves the loop.\<close>

definition process_chunk ::
  "pylib \<Rightarrow> client \<Rightarrow> int \<Rightarrow> int \<Rightarrow> pystr \<Rightarrow> nat \<Rightarrow> window \<Rightarrow> asm_state
   \<Rightarrow> (exn + asm_state) option" where
  "process_chunk lib client cut_min cut_max full_text idx ch st =
     (let start_idx = fst ch; end_idx = snd ch;
          chunk_text = py_slice full_text start_idx end_idx;
          chunk_size = end_idx - start_idx
      in case try_oracle lib client cut_max idx start_idx end_idx chunk_text st of
           (st', None) \<Rightarrow> Some (Inr st')
         | (st', Some ex) \<Rightarrow>
             except_handler lib cut_min cut_max start_idx chunk_size chunk_text ex st')"

fun process_chunks ::
  "pylib \<Rightarrow> client \<Rightarrow> int \<Rightarrow> int \<Rightarrow> pystr \<Rightarrow> nat \<Rightarrow> window list \<Rightarrow> asm_state
   \<Rightarrow> (exn + asm_state) option" where
  "process_chunks lib client cut_min cut_max full_text idx [] st = Some (Inr st)"
| "process_chunks lib client cut_min cut_max full_text idx (ch # chunks) st =
     (case process_chunk lib client cut_min cut_max full_text idx ch st of
        None \<Rightarrow> None
      | Some (Inl ex) \<Rightarrow> Some (Inl ex)
      | Some (Inr st') \<Rightarrow>
          process_chunks lib client cut_min cut_max full_text (Suc idx) chunks st')"

text \<open>
  \<open>llm_cut_and_label_with_params\<close>. The system prompt, the style hint and the glossary
  only reach the oracle, which is a parameter here; the progress display is left out. The
  result is \<open>None\<close> for a run that does not return, \<open>Inl\<close> for an exception that
  reaches the caller, \<open>Inr\<close> for the panels returned.
\<close>

definition TARGET_MIN :: int where "TARGET_MIN = 150"

definition llm_cut_and_label_with_params ::
  "pylib \<Rightarrow> client \<Rightarrow> pystr \<Rightarrow> int \<Rightarrow> int \<Rightarrow> int \<Rightarrow> (exn + panel list) option" where
  "llm_cut_and_label_with_params lib client full_text chunk_target window overlap =
     (case derive_cut_parameters chunk_target of
        Inl ex \<Rightarrow> Some (Inl ex)
      | Inr (cut_min, cut_max, target_min, target_max) \<Rightarrow>
          (case process_chunks lib client cut_min cut_max full_text 1
                  (chunk_for_llm full_text window overlap) ([], 1) of
             None \<Rightarrow> None
           | Some (Inl ex) \<Rightarrow> Some (Inl ex)
           | Some (Inr st) \<Rightarrow> Some (Inr (fst st))))"

text \<open>The invariant of the run on the identifiers: the counter is one more than the number
  of panels, and the panels carry the identifiers of \<open>1\<close>, \<open>2\<close>, ... in order.\<close>

definition ids_ok :: "asm_state \<Rightarrow> bool" where
  "ids_ok st \<longleftrightarrow>
     snd st = Suc (length (fst st)) \<and> map panel_id (fst st) = map cut_id [1..<snd st]"

section \<open>Properties of the offset reconciler\<close>




section \<open>Properties of the fallback splitter\<close>

lemma find_rev_upt_Some:
  "find P (rev [0..<n]) = Some i \<Longrightarrow> i < n \<and> P i \<and> (\<forall>j. i < j \<and> j < n \<longrightarrow> \<not> P j)"
proof (induction n)
  case 0
  then show ?case by simp
next
  case (Suc n)
  then show ?case
    by (auto split: if_splits simp: less_Suc_eq)
qed

lemma find_rev_upt_None:
  "find P (rev [0..<n]) = None \<longleftrightarrow> (\<forall>j<n. \<not> P j)"
  by (simp add: find_None_iff)

lemma rfind_ge: "- 1 \<le> rfind s sub"
  by (simp add: rfind_def split: option.splits)

lemma rfind_found:
  assumes "0 \<le> rfind s sub"
  shows "occurs_at s sub (nat (rfind s sub))"
    and "\<forall>j. nat (rfind s sub) < j \<and> j \<le> length s \<longrightarrow> \<not> occurs_at s sub j"
proof -
  from assms obtain i where f: "find (occurs_at s sub) (rev [0..<Suc (length s)]) = Some i"
    and r: "rfind s sub = int i"
    by (cases "find (occurs_at s sub) (rev [0..<Suc (length s)])") (simp_all add: rfind_def)
  from find_rev_upt_Some [OF f]
  have "occurs_at s sub i" and "\<forall>j. i < j \<and> j < Suc (length s) \<longrightarrow> \<not> occurs_at s sub j"
    by simp_all
  with r show "occurs_at s sub (nat (rfind s sub))"
    and "\<forall>j. nat (rfind s sub) < j \<and> j \<le> length s \<longrightarrow> \<not> occurs_at s sub j"
    by (simp_all add: less_Suc_eq_le)
qed

lemma rfind_not_found:
  "rfind s sub = - 1 \<longleftrightarrow> (\<forall>j\<le>length s. \<not> occurs_at s sub j)"
proof -
  have "rfind s sub = - 1 \<longleftrightarrow> find (occurs_at s sub) (rev [0..<Suc (length s)]) = None"
    by (simp add: rfind_def split: option.splits)
  also have "\<dots> \<longleftrightarrow> (\<forall>j<Suc (length s). \<not> occurs_at s sub j)"
    by (rule find_rev_upt_None)
  finally show ?thesis by (simp add: less_Suc_eq_le)
qed

lemma occurs_at_bound:
  assumes "occurs_at s sub i" and "sub \<noteq> []"
  shows "i + length sub \<le> length s"
proof -
  have "length (take (length sub) (drop i s)) = length sub"
    using assms(1) by (simp add: occurs_at_def)
  then have "min (length s - i) (length sub) = length sub" by simp
  moreover have "0 < length sub" using assms(2) by simp
  ultimately show ?thesis by linarith
qed

lemma rfind_upper:
  assumes "sub \<noteq> []"
  shows "rfind s sub + int (length sub) \<le> int (length s) \<or> rfind s sub = - 1"
proof (cases "0 \<le> rfind s sub")
  case True
  from rfind_found(1) [OF True] assms
  have "nat (rfind s sub) + length sub \<le> length s" by (rule occurs_at_bound)
  with True show ?thesis by linarith
next
  case False
  with rfind_ge [of s sub] show ?thesis by linarith
qed

lemma length_py_slice:
  "0 \<le> a \<Longrightarrow> 0 \<le> b \<Longrightarrow> int (length (py_slice s a b)) \<le> max 0 (b - a)"
  by (auto simp: py_slice_def slice_bound_def Let_def)

lemma tentative_end_bounds:
  assumes "1 \<le> cut_max" and "cursor < int (length normalized)"
  shows "cursor < tentative_end normalized cut_max cursor"
    and "tentative_end normalized cut_max cursor \<le> int (length normalized)"
  using assms by (simp_all add: tentative_end_def)

lemma fold_max_bounds:
  fixes c :: int
  assumes "\<forall>x\<in>set (c # cs). lo \<le> x \<and> x \<le> hi"
  shows "lo \<le> fold max cs c \<and> fold max cs c \<le> hi"
  using assms by (induction cs arbitrary: c) auto

lemma candidate_bounds:
  assumes "sub \<noteq> []"
  shows "- 1 \<le> rfind w sub \<and> rfind w sub \<le> int (length w) - 1"
  using rfind_ge [of w sub] rfind_upper [OF assms, of w] assms
  by (cases sub) auto

lemma split_point_bounds:
  assumes "1 \<le> cut_max" and "0 \<le> cursor" and "cursor < int (length normalized)"
  shows "cursor \<le> split_point normalized cut_min cut_max cursor"
    and "split_point normalized cut_min cut_max cursor \<le> tentative_end normalized cut_max cursor"
proof -
  let ?te = "tentative_end normalized cut_max cursor"
  let ?w = "py_slice normalized cursor ?te"
  let ?cands = "[rfind ?w PARA, rfind ?w KUTEN, rfind ?w TOUTEN]"
  let ?valid = "filter (\<lambda>c. c \<ge> cut_min - 1) ?cands"
  have te: "cursor < ?te" using assms by (simp add: tentative_end_def)
  have lw: "int (length ?w) \<le> ?te - cursor"
    using length_py_slice [of cursor ?te normalized] assms(2) te by simp
  have cb: "\<forall>x\<in>set ?cands. - 1 \<le> x \<and> x \<le> ?te - cursor - 1"
    using candidate_bounds [of PARA ?w] candidate_bounds [of KUTEN ?w]
      candidate_bounds [of TOUTEN ?w] lw
    by (simp add: PARA_def KUTEN_def TOUTEN_def)
  have sp: "split_point normalized cut_min cut_max cursor =
      (if ?te < int (length normalized) then
         (case ?valid of [] \<Rightarrow> ?te | c # cs \<Rightarrow> cursor + fold max cs c + 1)
       else ?te)"
    by (simp add: split_point_def Let_def)
  have "cursor \<le> split_point normalized cut_min cut_max cursor
      \<and> split_point normalized cut_min cut_max cursor \<le> ?te"
  proof (cases ?valid)
    case Nil
    with sp te show ?thesis by simp
  next
    case (Cons c cs)
    have "set (c # cs) \<subseteq> set ?cands"
      using Cons [symmetric] by (metis filter_is_subset)
    with cb have "\<forall>x\<in>set (c # cs). - 1 \<le> x \<and> x \<le> ?te - cursor - 1" by blast
    from fold_max_bounds [OF this] have "- 1 \<le> fold max cs c" "fold max cs c \<le> ?te - cursor - 1"
      by simp_all
    with sp Cons te show ?thesis by simp
  qed
  then show "cursor \<le> split_point normalized cut_min cut_max cursor"
    and "split_point normalized cut_min cut_max cursor \<le> ?te" by simp_all
qed

lemma fallback_step_cursor:
  "fst (fallback_step normalized cut_min cut_max st) =
     (if split_point normalized cut_min cut_max (fst st) > fst st
      then split_point normalized cut_min cut_max (fst st)
      else tentative_end normalized cut_max (fst st))"
  by (simp add: fallback_step_def Let_def)

lemma fallback_step_advances:
  assumes "1 \<le> cut_max" and "0 \<le> fst st" and "fst st < int (length normalized)"
  shows "fst st < fst (fallback_step normalized cut_min cut_max st)"
    and "fst (fallback_step normalized cut_min cut_max st) \<le> int (length normalized)"
  using split_point_bounds [OF assms(1,2,3), of cut_min] tentative_end_bounds [OF assms(1,3)]
  by (simp_all add: fallback_step_cursor)

lemma fallback_loop_terminates:
  assumes "1 \<le> cut_max" and "0 \<le> fst st"
  shows "\<exists>spans. fallback_loop normalized cut_min cut_max st = Some spans"
  using assms(2)
proof (induction "nat (int (length normalized) - fst st)" arbitrary: st rule: less_induct)
  case less
  show ?case
  proof (cases "fst st < int (length normalized)")
    case False
    then show ?thesis by (subst fallback_loop.simps) simp
  next
    case True
    let ?st' = "fallback_step normalized cut_min cut_max st"
    from fallback_step_advances [OF assms(1) less.prems True, of cut_min]
    have adv: "fst st < fst ?st'" "fst ?st' \<le> int (length normalized)" by simp_all
    then have "nat (int (length normalized) - fst ?st') < nat (int (length normalized) - fst st)"
      using True by linarith
    moreover have "0 \<le> fst ?st'" using adv less.prems by linarith
    ultimately obtain spans where "fallback_loop normalized cut_min cut_max ?st' = Some spans"
      using less.hyps by blast
    with True show ?thesis by (subst fallback_loop.simps) simp
  qed
qed

text \<open>
  Claim C10. The fallback splitter terminates for every text and every \<open>cut_min\<close> when
  \<open>cut_max \<ge> 1\<close>: an iteration that starts with the cursor inside the text leaves it
  strictly greater and at most the length of the text, on both branches.
\<close>

theorem split_fallback_chunk_terminates:
  assumes "1 \<le> cut_max"
  shows "(\<forall>cursor spans. 0 \<le> cursor \<and> cursor < int (length (normalize_newlines text)) \<longrightarrow>
            cursor < fst (fallback_step (normalize_newlines text) cut_min cut_max (cursor, spans))
          \<and> fst (fallback_step (normalize_newlines text) cut_min cut_max (cursor, spans))
              \<le> int (length (normalize_newlines text)))
       \<and> (\<exists>spans. split_fallback_chunk text cut_min cut_max = Some spans)"
proof -
  have "\<exists>spans. split_fallback_chunk text cut_min cut_max = Some spans"
    unfolding split_fallback_chunk_def
    using fallback_loop_terminates [OF assms, of "(0, [])"] by simp
  moreover have "cursor < fst (fallback_step (normalize_newlines text) cut_min cut_max (cursor, spans))
          \<and> fst (fallback_step (normalize_newlines text) cut_min cut_max (cursor, spans))
              \<le> int (length (normalize_newlines text))"
    if "0 \<le> cursor \<and> cursor < int (length (normalize_newlines text))" for cursor spans
    using fallback_step_advances [OF assms, of "(cursor, spans)" "normalize_newlines text" cut_min] that
    by simp
  ultimately show ?thesis by blast
qed

theorem split_fallback_chunk_terminates_witness:
  "(1::int) \<le> 5
   \<and> 0 < fst (fallback_step (normalize_newlines (ustr ''ab cd'')) 2 5 (0, []))
   \<and> (\<exists>spans. split_fallback_chunk (ustr ''ab cd'') 2 5 = Some spans)"
proof -
  have h: "(1::int) \<le> 5" by simp
  have len: "(0::int) \<le> 0 \<and> 0 < int (length (normalize_newlines (ustr ''ab cd'')))"
    by (simp add: normalize_newlines_def replace_cr_def ustr_def)
  from split_fallback_chunk_terminates [OF h, of "ustr ''ab cd''" 2] len
  show ?thesis using h by blast
qed

section \<open>Properties of the windowing\<close>

lemma chunk_loop_snapped_end:
  "(s, e) \<in> set (chunk_loop t window overlap i) \<Longrightarrow> e = snapped_end t window s"
proof (induction t window overlap i rule: chunk_loop.induct)
  case (1 t window overlap i)
  show ?case
  proof (cases "i < int (length t)")
    case False
    with "1.prems" show ?thesis by (simp add: chunk_loop.simps [of t window overlap i])
  next
    case True
    show ?thesis
    proof (cases "snapped_end t window i \<ge> int (length t)")
      case True
      with \<open>i < int (length t)\<close> "1.prems" show ?thesis
        by (simp add: chunk_loop.simps [of t window overlap i])
    next
      case False
      with \<open>i < int (length t)\<close> "1.prems" "1.IH" show ?thesis
        by (auto simp: chunk_loop.simps [of t window overlap i])
    qed
  qed
qed

text \<open>
  The text \<open>"ab\n\n"\<close> with size 4 and overlap 1: the proposed end of the first window,
  \<open>min (0 + 4) 4\<close>, is already the end of the text, and the window is still snapped back
  to the paragraph break at index 2, so that a second window follows. The snap is not
  restricted to windows whose proposed end lies before the end of the text.
\<close>

theorem chunk_for_llm_final_window_snapped:
  "int (length (normalize_newlines (ustr ''ab\<newline>\<newline>''))) = 4
   \<and> min (0 + 4) (int (length (normalize_newlines (ustr ''ab\<newline>\<newline>'')))) = 4
   \<and> chunk_for_llm (ustr ''ab\<newline>\<newline>'') 4 1 = [(0, 2), (1, 4)]"
  by code_simp

text \<open>
  Claim C6, as amended. The paragraph-break snap of \<open>chunk_for_llm\<close> is applied to every
  window, whether or not its proposed end \<open>min (start + size) (len text)\<close> is the end of the
  text: when the last double newline inside the proposed window lies at a local index of at
  least \<open>int (0.5 * size)\<close>, the window ends just before that double newline, and otherwise
  it keeps the proposed end.
\<close>

theorem chunk_for_llm_snap:
  "\<forall>(s, e) \<in> set (chunk_for_llm text window overlap).
     (let t = normalize_newlines text;
          proposed = min (s + window) (int (length t));
          w = py_slice t s proposed;
          brk = rfind w PARA
      in (int_half window \<le> brk \<longrightarrow> e = s + brk)
       \<and> (brk < int_half window \<longrightarrow> e = proposed)
       \<and> (0 \<le> brk \<longrightarrow> occurs_at w PARA (nat brk)
             \<and> (\<forall>j. nat brk < j \<and> j \<le> length w \<longrightarrow> \<not> occurs_at w PARA j))
       \<and> (brk < 0 \<longrightarrow> (\<forall>j\<le>length w. \<not> occurs_at w PARA j)))"
proof -
  have "(int_half window \<le> rfind w PARA \<longrightarrow> e = s + rfind w PARA)
       \<and> (rfind w PARA < int_half window \<longrightarrow> e = proposed)
       \<and> (0 \<le> rfind w PARA \<longrightarrow> occurs_at w PARA (nat (rfind w PARA))
             \<and> (\<forall>j. nat (rfind w PARA) < j \<and> j \<le> length w \<longrightarrow> \<not> occurs_at w PARA j))
       \<and> (rfind w PARA < 0 \<longrightarrow> (\<forall>j\<le>length w. \<not> occurs_at w PARA j))"
    if mem: "(s, e) \<in> set (chunk_for_llm text window overlap)"
      and p: "proposed = min (s + window) (int (length (normalize_newlines text)))"
      and w: "w = py_slice (normalize_newlines text) s proposed"
    for s e proposed w
  proof -
    from mem have "e = snapped_end (normalize_newlines text) window s"
      unfolding chunk_for_llm_def by (rule chunk_loop_snapped_end)
    then have e: "e = (if rfind w PARA \<ge> int_half window then s + rfind w PARA else proposed)"
      by (simp add: snapped_end_def Let_def p w)
    have "rfind w PARA < 0 \<Longrightarrow> rfind w PARA = - 1"
      using rfind_ge [of w PARA] by linarith
    then have "rfind w PARA < 0 \<longrightarrow> (\<forall>j\<le>length w. \<not> occurs_at w PARA j)"
      using rfind_not_found [of w PARA] by blast
    with e rfind_found [of w PARA] show ?thesis by auto
  qed
  then show ?thesis by (auto simp: Let_def)
qed

theorem chunk_for_llm_snap_witness:
  "(0, 2) \<in> set (chunk_for_llm (ustr ''ab\<newline>\<newline>'') 4 1)
   \<and> int_half 4 \<le> rfind (py_slice (normalize_newlines (ustr ''ab\<newline>\<newline>'')) 0 4) PARA
   \<and> (2::int) = 0 + rfind (py_slice (normalize_newlines (ustr ''ab\<newline>\<newline>'')) 0 4) PARA"
proof -
  let ?T = "ustr ''ab\<newline>\<newline>''"
  have mem: "(0, 2) \<in> set (chunk_for_llm ?T 4 1)" by code_simp
  have len: "min (0 + 4) (int (length (normalize_newlines ?T))) = 4" by code_simp
  have brk: "int_half 4 \<le> rfind (py_slice (normalize_newlines ?T) 0 4) PARA" by code_simp
  from chunk_for_llm_snap [of ?T 4 1] mem
  have "case (0, 2) of (s, e) \<Rightarrow>
     (let t = normalize_newlines ?T;
          proposed = min (s + 4) (int (length t));
          w = py_slice t s proposed;
          brk = rfind w PARA
      in (int_half 4 \<le> brk \<longrightarrow> e = s + brk)
       \<and> (brk < int_half 4 \<longrightarrow> e = proposed)
       \<and> (0 \<le> brk \<longrightarrow> occurs_at w PARA (nat brk)
             \<and> (\<forall>j. nat brk < j \<and> j \<le> length w \<longrightarrow> \<not> occurs_at w PARA j))
       \<and> (brk < 0 \<longrightarrow> (\<forall>j\<le>length w. \<not> occurs_at w PARA j)))"
    by (rule bspec)
  then have "int_half 4 \<le> rfind (py_slice (normalize_newlines ?T) 0 4) PARA \<longrightarrow>
      (2::int) = 0 + rfind (py_slice (normalize_newlines ?T) 0 4) PARA"
    using len by (simp add: Let_def)
  with mem brk show ?thesis by blast
qed

section \<open>Properties of the length bounds\<close>

lemma round_sig53_small:
  assumes "0 \<le> n" and "n < 2 ^ 53"
  shows "round_sig53 n = n"
proof -
  have "bitlen n \<le> 53"
    using assms(2) by (simp add: bitlen_le_iff_power)
  then have "nat (bitlen \<bar>n\<bar>) - 53 = 0" using assms(1) by simp
  then have "round_sig53 n = sgn n * (round_even \<bar>n\<bar> 0 * 2 ^ 0)"
    by (simp add: round_sig53_def Let_def)
  also have "\<dots> = n" using assms(1) by (simp add: round_even_def sgn_if)
  finally show ?thesis .
qed

lemma round_sig53_large:
  assumes "2 ^ 53 \<le> n"
  obtains s where "round_sig53 n = round_even n s * 2 ^ s"
    and "2 ^ s * 2 ^ 52 \<le> n" and "n < 2 ^ s * 2 ^ 53"
proof -
  define s where "s = nat (bitlen n) - 53"
  have pos: "0 < n" using assms by (smt (verit) zero_less_power)
  from bitlen_bounds [OF pos]
  have lo: "2 ^ nat (bitlen n - 1) \<le> n" and hi: "n < 2 ^ nat (bitlen n)" by simp_all
  have "53 < bitlen n"
  proof (rule ccontr)
    assume "\<not> 53 < bitlen n"
    then have "bitlen n \<le> 53" by simp
    then have "n < 2 ^ 53" by (simp add: bitlen_le_iff_power)
    with assms show False by simp
  qed
  then have b: "nat (bitlen n) = s + 53" and b1: "nat (bitlen n - 1) = s + 52"
    by (simp_all add: s_def)
  have 1: "round_sig53 n = round_even n s * 2 ^ s"
    using pos by (simp add: round_sig53_def Let_def s_def)
  have 2: "2 ^ s * 2 ^ 52 \<le> n" using lo by (simp add: b1 power_add)
  have 3: "n < 2 ^ s * 2 ^ 53" using hi by (simp add: b power_add)
  from 1 2 3 show ?thesis by (rule that)
qed

lemma round_even_error:
  assumes "0 \<le> n"
  shows "2 * \<bar>round_even n s * 2 ^ s - n\<bar> \<le> 2 ^ s"
proof -
  define P :: int where "P = 2 ^ s"
  define q where "q = n div P"
  define r where "r = n mod P"
  have P: "0 < P" by (simp add: P_def)
  have n: "n = q * P + r" by (simp add: q_def r_def)
  have r: "0 \<le> r" "r < P" using P by (simp_all add: r_def)
  have re: "round_even n s = (if 2 * r > P \<or> (2 * r = P \<and> odd q) then q + 1 else q)"
    by (simp add: round_even_def Let_def P_def q_def r_def)
  have "2 * \<bar>round_even n s * P - n\<bar> \<le> P"
  proof (cases "2 * r > P \<or> (2 * r = P \<and> odd q)")
    case True
    with re have "round_even n s = q + 1" by simp
    then have "round_even n s * P - n = P - r"
      by (subst (2) n) (simp add: algebra_simps)
    moreover from True r have "2 * \<bar>P - r\<bar> \<le> P" by (auto simp: abs_if)
    ultimately show ?thesis by simp
  next
    case False
    with re have "round_even n s = q" by simp
    then have "round_even n s * P - n = - r"
      by (subst (2) n) simp
    moreover from False have "2 * r \<le> P" by linarith
    ultimately show ?thesis using r by (simp add: abs_if)
  qed
  then show ?thesis by (simp add: P_def)
qed

lemma round_even_near:
  assumes "n = a * 2 ^ s + d" and "2 * \<bar>d\<bar> < 2 ^ s"
  shows "round_even n s = a"
proof -
  define P :: int where "P = 2 ^ s"
  have P: "0 < P" by (simp add: P_def)
  from assms have n: "n = a * P + d" and d: "2 * \<bar>d\<bar> < P" by (simp_all add: P_def)
  have re: "round_even n s =
      (if 2 * (n mod P) > P \<or> (2 * (n mod P) = P \<and> odd (n div P)) then n div P + 1 else n div P)"
    by (simp add: round_even_def Let_def P_def)
  show ?thesis
  proof (cases "0 \<le> d")
    case True
    with d have dP: "d < P" by (simp add: abs_if)
    have e: "n = P * a + d" using n by (simp add: mult.commute)
    have "n div P = a" using e True dP by (rule int_div_pos_eq)
    moreover have "n mod P = d" using e True dP by (rule int_mod_pos_eq)
    moreover have "\<not> (2 * d > P \<or> 2 * d = P \<and> odd a)" using d True by (auto simp: abs_if)
    ultimately show ?thesis using re by simp
  next
    case False
    have e: "n = P * (a - 1) + (P + d)" using n by (simp add: algebra_simps)
    have pd: "0 \<le> P + d" "P + d < P" using d False by (simp_all add: abs_if)
    have "n div P = a - 1" using e pd by (rule int_div_pos_eq)
    moreover have "n mod P = P + d" using e pd by (rule int_mod_pos_eq)
    moreover have "2 * (P + d) > P" using d False by (simp add: abs_if)
    ultimately show ?thesis using re by simp
  qed
qed

lemma float_of_int_small:
  assumes "0 \<le> t" and "t < 2 ^ 53"
  shows "float_of_int t = Inr t"
proof -
  have "(2::int) ^ 53 \<le> 2 ^ 1024" by (rule power_increasing) simp_all
  with assms have "\<bar>t\<bar> < 2 ^ 1024" by linarith
  with round_sig53_small [OF assms] show ?thesis
    by (simp add: float_of_int_def Let_def del: power_numeral)
qed

lemma int_of_product_bracket:
  assumes t: "0 \<le> t" "t < 2 ^ 53"
    and R: "round_sig53 (t * m) = R"
    and Q: "0 \<le> Q" "Q < 2 ^ 1000"
    and lo: "Q * 2 ^ e \<le> R" and hi: "R < (Q + 1) * 2 ^ e"
  shows "int_of_product t m e = Inr Q"
proof -
  have "0 \<le> Q * 2 ^ e" using Q(1) by simp
  with lo have R0: "0 \<le> R" by linarith
  have "Q + 1 \<le> 2 ^ 1024"
  proof -
    have "(2::int) ^ 1000 \<le> 2 ^ 1024" by (rule power_increasing) simp_all
    with Q(2) show ?thesis by linarith
  qed
  then have "(Q + 1) * 2 ^ e \<le> 2 ^ 1024 * 2 ^ e"
    by (rule mult_right_mono) simp
  with hi have "R < 2 ^ 1024 * 2 ^ e" by (rule less_le_trans)
  then have "R < 2 ^ (1024 + e)" by (simp only: power_add)
  with R0 have small: "\<not> \<bar>R\<bar> \<ge> 2 ^ (1024 + e)" by linarith
  have "R = 2 ^ e * Q + (R - Q * 2 ^ e)" by simp
  moreover have "0 \<le> R - Q * 2 ^ e" using lo by simp
  moreover have "R - Q * 2 ^ e < 2 ^ e" using hi by (simp add: algebra_simps)
  ultimately have d: "R div 2 ^ e = Q" by (rule int_div_pos_eq)
  have "sgn R * (\<bar>R\<bar> div 2 ^ e) = Q"
  proof (cases "R = 0")
    case True
    with d show ?thesis by simp
  next
    case False
    with R0 have "0 < R" by simp
    with d show ?thesis by simp
  qed
  with small show ?thesis
    by (simp add: int_of_product_def float_of_int_small [OF t] R Let_def del: power_numeral)
qed

lemma int_of_product_exact:
  assumes t: "0 \<le> t" and m: "0 < m" and tm: "t * m < 2 ^ 53"
  shows "int_of_product t m e = Inr (t * m div 2 ^ e)"
proof -
  have tm0: "0 \<le> t * m" using t m by simp
  have "t \<le> t * m" using t m by (simp add: mult_le_cancel_left1)
  with tm have t53: "t < 2 ^ 53" by linarith
  have R: "round_sig53 (t * m) = t * m" using tm0 tm by (rule round_sig53_small)
  let ?Q = "t * m div 2 ^ e"
  have Q0: "0 \<le> ?Q" using tm0 by (simp add: pos_imp_zdiv_nonneg_iff)
  have dm: "t * m = ?Q * 2 ^ e + t * m mod 2 ^ e" by (rule div_mult_mod_eq [symmetric])
  have m0: "0 \<le> t * m mod 2 ^ e" and m1: "t * m mod 2 ^ e < 2 ^ e" by simp_all
  have lo: "?Q * 2 ^ e \<le> t * m" using dm m0 by linarith
  have "?Q * 1 \<le> ?Q * 2 ^ e" using Q0 by (intro mult_left_mono) simp_all
  with lo have "?Q \<le> t * m" by simp
  moreover have "(2::int) ^ 53 \<le> 2 ^ 1000" by (rule power_increasing) simp_all
  ultimately have Q1: "?Q < 2 ^ 1000" using tm by linarith
  have "(?Q + 1) * 2 ^ e = ?Q * 2 ^ e + 2 ^ e" by (simp add: algebra_simps)
  then have hi: "t * m < (?Q + 1) * 2 ^ e" using dm m1 by linarith
  from t t53 R Q0 Q1 lo hi show ?thesis by (rule int_of_product_bracket)
qed

lemma pow2_bound_exp:
  assumes "(2::int) ^ s < 2 ^ k"
  shows "s < k"
  using assms by (rule power_less_imp_less_exp [rotated]) simp

lemma pow2_split:
  assumes "s \<le> k"
  shows "(2::int) ^ k = 2 ^ (k - s) * 2 ^ s"
  using assms by (simp flip: power_add)

lemma int_of_product_06:
  assumes "80 \<le> t" and "t < 2 ^ 48"
  shows "int_of_product t 5404319552844595 53 = Inr (3 * t div 5)"
proof -
  define N where "N = t * 5404319552844595"
  define Q where "Q = 3 * t div 5"
  define r where "r = 3 * t mod 5"
  have t3: "3 * t = 5 * Q + r" and r: "0 \<le> r" "r < 5"
    by (simp_all add: Q_def r_def)
  have t48: "t < 281474976710656" using assms(2) by simp
  have N5: "5 * N = (5 * Q + r) * 9007199254740992 - t"
    unfolding t3 [symmetric] N_def by simp
  have big: "2 ^ 53 \<le> N" using assms(1) by (simp add: N_def)
  then have N0: "0 \<le> N" by simp
  from round_sig53_large [OF big] obtain s
    where R: "round_sig53 N = round_even N s * 2 ^ s"
      and lo: "2 ^ s * 2 ^ 52 \<le> N" and hi: "N < 2 ^ s * 2 ^ 53"
    by blast
  define P :: int where "P = 2 ^ s"
  have lo': "P * 4503599627370496 \<le> N" and hi': "N < P * 9007199254740992"
    using lo hi by (simp_all add: P_def)
  have "P < 2 ^ 49" using lo' t48 by (simp add: N_def)
  then have "s < 49" unfolding P_def by (rule pow2_bound_exp)
  then have s53: "s \<le> 53" and s48: "s \<le> 48" by simp_all
  have "P \<le> 2 ^ 48" unfolding P_def using s48 by (intro power_increasing) simp_all
  then have P48: "P \<le> 281474976710656" by simp
  have split: "9007199254740992 = 2 ^ (53 - s) * P"
    using pow2_split [OF s53] by (simp add: P_def)
  define R where "R = round_sig53 N"
  have RP: "R = round_even N s * P" by (simp add: R_def R P_def)
  have bracket: "Q * 9007199254740992 \<le> R \<and> R < (Q + 1) * 9007199254740992"
  proof (cases "r = 0")
    case True
    with t3 have "t mod 5 = 0" by presburger
    then obtain k where k: "t = 5 * k" by (metis mod_0_imp_dvd dvdE)
    with t3 True have Qk: "Q = 3 * k" by simp
    have k0: "0 \<le> k" using assms(1) k by simp
    from N5 True k have Nk: "N = Q * 9007199254740992 - k" by simp
    have "2 * k < P" using Nk Qk hi' k0 by linarith
    then have near: "2 * \<bar>- k\<bar> < 2 ^ s" using k0 by (simp add: P_def)
    have "N = (Q * 2 ^ (53 - s)) * 2 ^ s + (- k)"
      using Nk split by (simp add: P_def algebra_simps)
    from round_even_near [OF this near] have "round_even N s = Q * 2 ^ (53 - s)" .
    then have "R = Q * 9007199254740992" using RP split by simp
    then show ?thesis by simp
  next
    case False
    with r have r1: "1 \<le> r" "r \<le> 4" by simp_all
    from round_even_error [OF N0, of s] have "2 * \<bar>R - N\<bar> \<le> P"
      by (simp add: RP P_def)
    then have e1: "2 * R - 2 * N \<le> P" and e2: "2 * N - 2 * R \<le> P"
      by (simp_all add: abs_if split: if_splits)
    have t0: "0 \<le> t" using assms(1) by simp
    have N5': "5 * N = 45035996273704960 * Q + 9007199254740992 * r - t"
      using N5 by (simp add: algebra_simps)
    have "9007199254740992 * Q \<le> R" using N5' e2 P48 r1 t48 t0 by linarith
    moreover have "R < 9007199254740992 * Q + 9007199254740992"
      using N5' e1 P48 r1 t48 t0 by linarith
    ultimately show ?thesis by (simp add: algebra_simps)
  qed
  have t53: "t < 2 ^ 53" using t48 by simp
  have t0: "0 \<le> t" using assms(1) by simp
  have Q0: "0 \<le> Q" using t0 by (simp add: Q_def)
  have "Q \<le> 3 * t" using t3 r Q0 by linarith
  with t48 have "Q < 1125899906842624" by linarith
  then have "Q < 2 ^ 50" by simp
  moreover have "(2::int) ^ 50 \<le> 2 ^ 1000" by (rule power_increasing) simp_all
  ultimately have Q1: "Q < 2 ^ 1000" by (rule less_le_trans)
  have "int_of_product t 5404319552844595 53 = Inr Q"
  proof (rule int_of_product_bracket [OF t0 t53 _ Q0 Q1])
    show "round_sig53 (t * 5404319552844595) = R" by (simp add: R_def N_def)
    show "Q * 2 ^ 53 \<le> R" using bracket by simp
    show "R < (Q + 1) * 2 ^ 53" using bracket by simp
  qed
  then show ?thesis by (simp add: Q_def)
qed

lemma int_of_product_16:
  assumes "80 \<le> t" and "t < 2 ^ 48"
  shows "int_of_product t 3602879701896397 51 = Inr (8 * t div 5)"
proof -
  define N where "N = t * 3602879701896397"
  define Q where "Q = 8 * t div 5"
  define r where "r = 8 * t mod 5"
  have t8: "8 * t = 5 * Q + r" and r: "0 \<le> r" "r < 5"
    by (simp_all add: Q_def r_def)
  have t48: "t < 281474976710656" using assms(2) by simp
  have t0: "0 \<le> t" using assms(1) by simp
  have "5 * N = 8 * t * 2251799813685248 + t" by (simp add: N_def)
  then have N5: "5 * N = 11258999068426240 * Q + 2251799813685248 * r + t"
    unfolding t8 by (simp add: algebra_simps)
  have big: "2 ^ 53 \<le> N" using assms(1) by (simp add: N_def)
  then have N0: "0 \<le> N" by simp
  from round_sig53_large [OF big] obtain s
    where R: "round_sig53 N = round_even N s * 2 ^ s"
      and lo: "2 ^ s * 2 ^ 52 \<le> N" and hi: "N < 2 ^ s * 2 ^ 53"
    by blast
  define P :: int where "P = 2 ^ s"
  have lo': "P * 4503599627370496 \<le> N" and hi': "N < P * 9007199254740992"
    using lo hi by (simp_all add: P_def)
  have "P < 2 ^ 48" using lo' t48 by (simp add: N_def)
  then have "s < 48" unfolding P_def by (rule pow2_bound_exp)
  then have s51: "s \<le> 51" and s47: "s \<le> 47" by simp_all
  have "P \<le> 2 ^ 47" unfolding P_def using s47 by (intro power_increasing) simp_all
  then have P47: "P \<le> 140737488355328" by simp
  have split: "2251799813685248 = 2 ^ (51 - s) * P"
    using pow2_split [OF s51] by (simp add: P_def)
  define R where "R = round_sig53 N"
  have RP: "R = round_even N s * P" by (simp add: R_def R P_def)
  have bracket: "Q * 2251799813685248 \<le> R \<and> R < (Q + 1) * 2251799813685248"
  proof (cases "r = 0")
    case True
    with t8 have "t mod 5 = 0" by presburger
    then obtain k where k: "t = 5 * k" by (metis mod_0_imp_dvd dvdE)
    with t8 True have Qk: "Q = 8 * k" by simp
    have k0: "0 \<le> k" using assms(1) k by simp
    from N5 True k have Nk: "N = 2251799813685248 * Q + k" by simp
    have "2 * k < P" using Nk Qk hi' k0 by linarith
    then have near: "2 * \<bar>k\<bar> < 2 ^ s" using k0 by (simp add: P_def)
    have "N = (Q * 2 ^ (51 - s)) * 2 ^ s + k"
      using Nk split by (simp add: P_def algebra_simps)
    from round_even_near [OF this near] have "round_even N s = Q * 2 ^ (51 - s)" .
    then have "R = Q * 2251799813685248" using RP split by simp
    then show ?thesis by simp
  next
    case False
    with r have r1: "1 \<le> r" "r \<le> 4" by simp_all
    from round_even_error [OF N0, of s] have "2 * \<bar>R - N\<bar> \<le> P"
      by (simp add: RP P_def)
    then have e1: "2 * R - 2 * N \<le> P" and e2: "2 * N - 2 * R \<le> P"
      by (simp_all add: abs_if split: if_splits)
    have "2251799813685248 * Q \<le> R" using N5 e2 P47 r1 t48 t0 by linarith
    moreover have "R < 2251799813685248 * Q + 2251799813685248"
      using N5 e1 P47 r1 t48 t0 by linarith
    ultimately show ?thesis by (simp add: algebra_simps)
  qed
  have t53: "t < 2 ^ 53" using t48 by simp
  have Q0: "0 \<le> Q" using t0 by (simp add: Q_def)
  have "Q \<le> 8 * t" using t8 r Q0 by linarith
  with t48 have "Q < 2251799813685248" by linarith
  then have "Q < 2 ^ 51" by simp
  moreover have "(2::int) ^ 51 \<le> 2 ^ 1000" by (rule power_increasing) simp_all
  ultimately have Q1: "Q < 2 ^ 1000" by (rule less_le_trans)
  have "int_of_product t 3602879701896397 51 = Inr Q"
  proof (rule int_of_product_bracket [OF t0 t53 _ Q0 Q1])
    show "round_sig53 (t * 3602879701896397) = R" by (simp add: R_def N_def)
    show "Q * 2 ^ 51 \<le> R" using bracket by simp
    show "R < (Q + 1) * 2 ^ 51" using bracket by simp
  qed
  then show ?thesis by (simp add: Q_def)
qed

lemma derive_cut_parameters_in_range:
  assumes "max 80 target < 2 ^ 48" and "t = max 80 target"
  shows "derive_cut_parameters target =
     Inr (max 40 (3 * t div 5),
          max (max 40 (3 * t div 5) + 50) (8 * t div 5),
          max 50 (3 * t div 4),
          max (max 50 (3 * t div 4) + 30) (5 * t div 4))"
proof -
  have t80: "80 \<le> t" and t48: "t < 2 ^ 48" using assms by simp_all
  then have t0: "0 \<le> t" and tn: "t < 281474976710656" by simp_all
  have a: "int_of_product t 3 2 = Inr (3 * t div 4)"
    using int_of_product_exact [OF t0, of 3 2] tn by (simp add: mult.commute)
  have b: "int_of_product t 5 2 = Inr (5 * t div 4)"
    using int_of_product_exact [OF t0, of 5 2] tn by (simp add: mult.commute)
  note c = int_of_product_06 [OF t80 t48] and d = int_of_product_16 [OF t80 t48]
  show ?thesis
    unfolding derive_cut_parameters_def assms(2) [symmetric] Let_def
    by (simp only: a b c d sum.case)
qed

lemma floor_ratio:
  "\<lfloor>of_int a / of_int b * (of_int t :: rat)\<rfloor> = a * t div b"
proof -
  have "of_int a / of_int b * (of_int t :: rat) = of_int (a * t) / of_int b" by simp
  then show ?thesis by (simp only: floor_divide_of_int_eq)
qed

lemma floor_34: "\<lfloor>3 / 4 * (of_int t :: rat)\<rfloor> = 3 * t div 4"
  using floor_ratio [of 3 4 t] by simp

lemma floor_54: "\<lfloor>5 / 4 * (of_int t :: rat)\<rfloor> = 5 * t div 4"
  using floor_ratio [of 5 4 t] by simp

lemma floor_35: "\<lfloor>3 / 5 * (of_int t :: rat)\<rfloor> = 3 * t div 5"
  using floor_ratio [of 3 5 t] by simp

lemma floor_85: "\<lfloor>8 / 5 * (of_int t :: rat)\<rfloor> = 8 * t div 5"
  using floor_ratio [of 8 5 t] by simp

lemma ratio_policy_div:
  "ratio_policy t =
     (max 40 (3 * t div 5),
      max (max 40 (3 * t div 5) + 50) (8 * t div 5),
      max 50 (3 * t div 4),
      max (max 50 (3 * t div 4) + 30) (5 * t div 4))"
  unfolding ratio_policy_def Let_def floor_34 floor_54 floor_35 floor_85 by (rule refl)

lemmas eval_product = int_of_product_def float_of_int_def round_sig53_def round_even_def
  Let_def compute_bitlen

lemma derive_cut_parameters_at_10: "derive_cut_parameters 10 = Inr (48, 128, 60, 100)"
proof -
  have a: "int_of_product 80 3 2 = Inr 60" by (simp add: eval_product)
  have b: "int_of_product 80 5 2 = Inr 100" by (simp add: eval_product)
  have c: "int_of_product 80 5404319552844595 53 = Inr 48" by (simp add: eval_product)
  have d: "int_of_product 80 3602879701896397 51 = Inr 128" by (simp add: eval_product)
  show ?thesis by (simp add: derive_cut_parameters_def a b c d)
qed

lemma derive_cut_parameters_large:
  "derive_cut_parameters (2 ^ 60 + 4) =
     Inr (691752902764108160, 1844674407370955264, 864691128455135232, 1441151880758558720)"
proof -
  have a: "int_of_product 1152921504606846980 3 2 = Inr 864691128455135232"
    by (simp add: eval_product)
  have b: "int_of_product 1152921504606846980 5 2 = Inr 1441151880758558720"
    by (simp add: eval_product)
  have c: "int_of_product 1152921504606846980 5404319552844595 53 = Inr 691752902764108160"
    by (simp add: eval_product)
  have d: "int_of_product 1152921504606846980 3602879701896397 51 = Inr 1844674407370955264"
    by (simp add: eval_product)
  show ?thesis by (simp add: derive_cut_parameters_def a b c d)
qed

text \<open>
  For the target 10 the function computes the bounds of the target 80, not those the ratio
  policy gives for 10; and for the target \<open>2^60 + 4\<close>, which is above 80, the double
  products are no longer the exact products.
\<close>

theorem derive_cut_parameters_not_ratio_policy:
  "derive_cut_parameters 10 = Inr (48, 128, 60, 100)
   \<and> ratio_policy 10 = (40, 90, 50, 80)
   \<and> derive_cut_parameters (2 ^ 60 + 4) =
       Inr (691752902764108160, 1844674407370955264, 864691128455135232, 1441151880758558720)
   \<and> ratio_policy (2 ^ 60 + 4) =
       (691752902764108188, 1844674407370955168, 864691128455135235, 1441151880758558725)"
proof -
  have "ratio_policy 10 = (40, 90, 50, 80)" by (simp add: ratio_policy_div)
  moreover have "ratio_policy (2 ^ 60 + 4) =
       (691752902764108188, 1844674407370955168, 864691128455135235, 1441151880758558725)"
    by (simp add: ratio_policy_div)
  ultimately show ?thesis
    using derive_cut_parameters_at_10 derive_cut_parameters_large by simp
qed

text \<open>
  Claim C8, as amended. For every integer target whose value raised to at least 80 is below
  \<open>2^48\<close>, \<open>derive_cut_parameters\<close> returns the four length bounds of the fixed ratio
  policy applied to \<open>t = max(80, target)\<close>: ideal-min \<open>max(50, floor(0.75 t))\<close>,
  ideal-max \<open>max(ideal_min + 30, floor(1.25 t))\<close>, hard-min \<open>max(40, floor(0.6 t))\<close> and
  hard-max \<open>max(hard_min + 50, floor(1.6 t))\<close>.
\<close>

theorem derive_cut_parameters_ratio_policy:
  assumes "max 80 target < 2 ^ 48"
  shows "derive_cut_parameters target = Inr (ratio_policy (max 80 target))"
  using derive_cut_parameters_in_range [OF assms refl] by (simp only: ratio_policy_div)

theorem derive_cut_parameters_ratio_policy_witness:
  "max 80 (150::int) < 2 ^ 48
   \<and> derive_cut_parameters 150 = Inr (90, 240, 112, 187)"
proof -
  have h: "max 80 (150::int) < 2 ^ 48" by simp
  have "ratio_policy (max 80 150) = (90, 240, 112, 187)" by (simp add: ratio_policy_div)
  with derive_cut_parameters_ratio_policy [OF h] h show ?thesis by simp
qed

section \<open>Properties of the response parsers\<close>














section \<open>Properties of the relationship reducer\<close>

lemma first_description_Cons:
  "first_description name (m # ms) =
     (if fst m = name \<and> snd m \<noteq> [] then snd m else first_description name ms)"
  by (simp add: first_description_def)

lemma first_description_append:
  "first_description name (ms1 @ ms2) =
     (if first_description name ms1 \<noteq> [] then first_description name ms1
      else first_description name ms2)"
  by (induction ms1) (simp_all add: first_description_Cons, simp add: first_description_def)

lemma map_of_merge_mention:
  "map_of (merge_mention nodes m) name =
     (if name = fst m \<and> (map_of nodes name = None \<or> (snd m \<noteq> [] \<and> map_of nodes name = Some []))
      then Some (snd m) else map_of nodes name)"
  by (cases "name = fst m") (auto simp: merge_mention_def Let_def update_conv')

lemma merged_description_Nil: "merged_description nodes [] name = map_of nodes name"
  by (simp add: merged_description_def first_description_def split: option.splits)

lemma merged_description_step:
  "merged_description (merge_mention nodes m) ms name = merged_description nodes (m # ms) name"
proof (cases "name = fst m")
  case False
  then have "map_of (merge_mention nodes m) name = map_of nodes name"
    by (simp add: map_of_merge_mention)
  moreover have "first_description name (m # ms) = first_description name ms"
    using False by (simp add: first_description_Cons)
  moreover have "name \<in> fst ` set (m # ms) \<longleftrightarrow> name \<in> fst ` set ms"
    using False by auto
  ultimately show ?thesis by (simp only: merged_description_def)
next
  case True
  show ?thesis
  proof (cases "map_of nodes name")
    case None
    with True show ?thesis
      by (simp add: merged_description_def map_of_merge_mention first_description_Cons)
  next
    case (Some d)
    with True show ?thesis
      by (simp add: merged_description_def map_of_merge_mention first_description_Cons)
  qed
qed

lemma merge_characters_description:
  "merge_characters nodes chars = Inr nodes'
   \<Longrightarrow> map_of nodes' name = merged_description nodes (mentions chars) name"
proof (induction chars arbitrary: nodes)
  case Nil
  then show ?case by (simp add: merged_description_Nil)
next
  case (Cons char chars)
  show ?case
  proof (cases "char_mention char")
    case (Inl ex)
    with Cons.prems show ?thesis by simp
  next
    case (Inr r)
    show ?thesis
    proof (cases r)
      case None
      with Inr Cons.prems have "merge_characters nodes chars = Inr nodes'" by simp
      from Cons.IH [OF this] Inr None show ?thesis by simp
    next
      case (Some m)
      with Inr Cons.prems have "merge_characters (merge_mention nodes m) chars = Inr nodes'"
        by simp
      from Cons.IH [OF this] Inr Some show ?thesis by (simp add: merged_description_step)
    qed
  qed
qed

lemma first_description_absent:
  "name \<notin> fst ` set ms \<Longrightarrow> first_description name ms = []"
proof (induction ms)
  case Nil
  show ?case by (simp add: first_description_def)
next
  case (Cons m ms)
  then have "fst m \<noteq> name" and "name \<notin> fst ` set ms" by auto
  with Cons.IH show ?case by (simp add: first_description_Cons)
qed

lemma merged_description_append:
  assumes "\<And>name. map_of nodes1 name = merged_description nodes ms1 name"
  shows "merged_description nodes1 ms2 name = merged_description nodes (ms1 @ ms2) name"
proof (cases "map_of nodes name")
  case None
  show ?thesis
  proof (cases "name \<in> fst ` set ms1")
    case True
    with None assms [of name] show ?thesis
      by (simp add: merged_description_def first_description_append image_Un)
  next
    case False
    with None assms [of name] have n1: "map_of nodes1 name = None"
      by (simp add: merged_description_def)
    have fd: "first_description name (ms1 @ ms2) = first_description name ms2"
      using first_description_absent [OF False] by (simp add: first_description_append)
    have "name \<in> fst ` set (ms1 @ ms2) \<longleftrightarrow> name \<in> fst ` set ms2"
      using False by (simp add: image_Un)
    with None n1 fd show ?thesis by (simp only: merged_description_def option.case)
  qed
next
  case (Some d)
  with assms [of name] show ?thesis
    by (simp add: merged_description_def first_description_append)
qed

lemma reduce_window_description:
  assumes "reduce_window lib st data = Inr st'"
  shows "map_of (fst st') name = merged_description (fst st) (window_mentions data) name"
proof (cases data)
  case None
  with assms show ?thesis
    by (simp add: reduce_window_def window_mentions_def merged_description_Nil)
next
  case (Some kvs)
  show ?thesis
  proof (cases "kvs = []")
    case True
    with Some assms show ?thesis
      by (simp add: reduce_window_def window_mentions_def merged_description_Nil)
  next
    case False
    from assms Some False obtain cv chars nodes where
      cv: "py_get (JObj kvs) (ustr ''characters'') (JArr []) = Inr cv"
      and chars: "py_iter cv = Inr chars"
      and nodes: "merge_characters (fst st) chars = Inr nodes"
      and st': "fst st' = nodes"
      by (auto simp: reduce_window_def split: sum.splits)
    have "window_mentions data = mentions chars"
      using Some False cv chars by (simp add: window_mentions_def)
    with merge_characters_description [OF nodes] st' show ?thesis by simp
  qed
qed

lemma graph_loop_description:
  "graph_loop lib client full_text st idx chunks = Inr st'
   \<Longrightarrow> map_of (fst st') name
       = merged_description (fst st) (all_mentions lib client full_text idx chunks) name"
proof (induction chunks arbitrary: st idx name)
  case Nil
  then show ?case by (simp add: merged_description_Nil)
next
  case (Cons ch chunks)
  from Cons.prems obtain data st1 where
    data: "call_graph_chunk lib client idx (py_slice full_text (fst ch) (snd ch)) = Inr data"
    and st1: "reduce_window lib st data = Inr st1"
    and rest: "graph_loop lib client full_text st1 (Suc idx) chunks = Inr st'"
    by (auto split: sum.splits)
  have "map_of (fst st') name
      = merged_description (fst st1) (all_mentions lib client full_text (Suc idx) chunks) name"
    using rest by (rule Cons.IH)
  also have "\<dots> = merged_description (fst st)
      (window_mentions data @ all_mentions lib client full_text (Suc idx) chunks) name"
    by (rule merged_description_append) (rule reduce_window_description [OF st1])
  finally show ?case using data by simp
qed

text \<open>
  Two mentions of \<open>Al\<close>, described first as \<open>x\<close> and then as \<open>xyz\<close>: the shorter, earlier
  description is kept. A mention of \<open>Al\<close> and one of \<open>al\<close>: they are two nodes.
\<close>

theorem descriptions_not_longest_nor_case_folded:
  "merge_characters []
     [JObj [(ustr ''name'', JStr (ustr ''Al'')), (ustr ''description'', JStr (ustr ''x''))],
      JObj [(ustr ''name'', JStr (ustr ''Al'')), (ustr ''description'', JStr (ustr ''xyz''))]]
     = Inr [(ustr ''Al'', ustr ''x'')]
   \<and> merge_characters []
     [JObj [(ustr ''name'', JStr (ustr ''Al'')), (ustr ''description'', JStr (ustr ''x''))],
      JObj [(ustr ''name'', JStr (ustr ''al'')), (ustr ''description'', JStr (ustr ''yz''))]]
     = Inr [(ustr ''Al'', ustr ''x''), (ustr ''al'', ustr ''yz'')]"
  by code_simp

text \<open>
  Claim C7, as amended. In the relationship reducer, character descriptions are merged per
  character name under the exact name, stripped of surrounding whitespace and compared
  case-sensitively: a name is a node exactly when some window mentions it, and its
  description is the first non-empty description among its mentions over all windows in
  order (empty when every mention has an empty description); a description that is not
  empty is never replaced, whatever the length of a later one.
\<close>

theorem character_descriptions_merged:
  assumes "graph_loop lib client full_text ([], edges0) idx chunks = Inr (nodes', edges')"
  shows "map_of nodes' name =
     (if name \<in> fst ` set (all_mentions lib client full_text idx chunks)
      then Some (first_description name (all_mentions lib client full_text idx chunks))
      else None)"
  using graph_loop_description [OF assms, of name] by (simp add: merged_description_def)

theorem character_descriptions_merged_witness:
  "graph_loop sample_lib
     (\<lambda>idx chunk_text. Inr (Some (ustr
        (if idx = 1 then ''{\"characters\":[{\"name\":\"Al\",\"description\":\"\"}]}''
         else ''{\"characters\":[{\"name\":\"Al\",\"description\":\"x\"}]}''))))
     (ustr ''ab'') ([], []) 1 [(0, 1), (1, 2)]
     = Inr ([(ustr ''Al'', ustr ''x'')], [])
   \<and> map_of [(ustr ''Al'', ustr ''x'')] (ustr ''Al'')
     = Some (first_description (ustr ''Al'') [(ustr ''Al'', []), (ustr ''Al'', ustr ''x'')])"
proof -
  let ?client = "\<lambda>idx chunk_text. Inr (Some (ustr
        (if idx = (1::nat) then ''{\"characters\":[{\"name\":\"Al\",\"description\":\"\"}]}''
         else ''{\"characters\":[{\"name\":\"Al\",\"description\":\"x\"}]}'')))"
  have run: "graph_loop sample_lib ?client (ustr ''ab'') ([], []) 1 [(0, 1), (1, 2)]
     = Inr ([(ustr ''Al'', ustr ''x'')], [])" by code_simp
  have ms: "all_mentions sample_lib ?client (ustr ''ab'') 1 [(0, 1), (1, 2)]
     = [(ustr ''Al'', []), (ustr ''Al'', ustr ''x'')]" by code_simp
  from character_descriptions_merged [OF run, of "ustr ''Al''"] run show ?thesis
    unfolding ms by simp
qed

section \<open>Properties of the cut assembler\<close>

lemma ids_ok_append:
  assumes "ids_ok st" and "panel_id p = cut_id (snd st)"
  shows "ids_ok (fst st @ [p], Suc (snd st))"
  using assms by (simp add: ids_ok_def)

lemma label_item_Some:
  assumes "label_item lib cut_max start_idx end_idx cut_counter item = Inr (Some p)"
  obtains kvs text_local ls le speakers where
    "p = oracle_panel lib kvs cut_counter text_local
           (reconcile_span ls le (int (length text_local)) start_idx end_idx) speakers"
proof (cases item)
  case (JObj kvs)
  with assms show ?thesis
    by (auto simp: label_item_def Let_def split: sum.splits if_splits intro: that)
qed (use assms in \<open>simp_all add: label_item_def\<close>)

lemma label_item_id:
  assumes "label_item lib cut_max start_idx end_idx cut_counter item = Inr (Some p)"
  shows "panel_id p = cut_id cut_counter"
  using assms by (rule label_item_Some) (simp add: oracle_panel_def)

lemma label_items_ids_ok:
  "ids_ok st \<Longrightarrow> ids_ok (fst (label_items lib cut_max start_idx end_idx items st))"
proof (induction items arbitrary: st)
  case Nil
  then show ?case by simp
next
  case (Cons item items)
  show ?case
  proof (cases "label_item lib cut_max start_idx end_idx (snd st) item")
    case (Inl ex)
    with Cons.prems show ?thesis by simp
  next
    case (Inr r)
    show ?thesis
    proof (cases r)
      case None
      with Inr Cons show ?thesis by simp
    next
      case (Some p)
      from Inr Some have "panel_id p = cut_id (snd st)" by (simp add: label_item_id)
      with Cons.prems have "ids_ok (fst st @ [p], Suc (snd st))" by (rule ids_ok_append)
      from Cons.IH [OF this] Inr Some show ?thesis by simp
    qed
  qed
qed

lemma try_oracle_ids_ok:
  "ids_ok st \<Longrightarrow> ids_ok (fst (try_oracle lib client cut_max idx start_idx end_idx chunk_text st))"
  by (auto simp: try_oracle_def label_items_ids_ok split: sum.splits option.splits)

lemma fallback_emit_ids_ok:
  "ids_ok st \<Longrightarrow> ids_ok (fallback_emit lib start_idx chunk_size segs st)"
proof (induction segs arbitrary: st)
  case Nil
  then show ?case by simp
next
  case (Cons seg segs)
  show ?case
  proof (cases "strip (snd (snd seg)) = []")
    case True
    with Cons show ?thesis by simp
  next
    case False
    have "ids_ok (fst st @ [fallback_panel lib start_idx chunk_size (snd st) (fst seg)
                     (strip (snd (snd seg)))], Suc (snd st))"
      using Cons.prems by (rule ids_ok_append) (simp add: fallback_panel_def)
    from Cons.IH [OF this] False show ?thesis by (simp add: Let_def)
  qed
qed

lemma except_handler_fallback:
  "except_handler lib cut_min cut_max start_idx chunk_size chunk_text ex st =
     map_option (\<lambda>segs. Inr (fallback_emit lib start_idx chunk_size segs st))
       (fallback_segments chunk_text cut_min cut_max)"
  by (simp add: except_handler_def except_pass_def auth_guard_def split: option.splits)

lemma process_chunk_cases:
  obtains st1 where
      "try_oracle lib client cut_max idx (fst ch) (snd ch)
         (py_slice full_text (fst ch) (snd ch)) st = (st1, None)"
      "process_chunk lib client cut_min cut_max full_text idx ch st = Some (Inr st1)"
  | st1 ex where
      "try_oracle lib client cut_max idx (fst ch) (snd ch)
         (py_slice full_text (fst ch) (snd ch)) st = (st1, Some ex)"
      "process_chunk lib client cut_min cut_max full_text idx ch st =
         map_option (\<lambda>segs. Inr (fallback_emit lib (fst ch) (snd ch - fst ch) segs st1))
           (fallback_segments (py_slice full_text (fst ch) (snd ch)) cut_min cut_max)"
proof -
  obtain st1 r where r: "try_oracle lib client cut_max idx (fst ch) (snd ch)
         (py_slice full_text (fst ch) (snd ch)) st = (st1, r)"
    by (cases "try_oracle lib client cut_max idx (fst ch) (snd ch)
         (py_slice full_text (fst ch) (snd ch)) st")
  show ?thesis
  proof (cases r)
    case None
    with r show ?thesis
      by (intro that(1) [of st1]) (simp_all add: process_chunk_def Let_def)
  next
    case (Some ex)
    with r show ?thesis
      by (intro that(2) [of st1 ex])
        (simp_all add: process_chunk_def Let_def except_handler_fallback)
  qed
qed

lemma process_chunk_ids_ok:
  assumes "ids_ok st"
    and "process_chunk lib client cut_min cut_max full_text idx ch st = Some (Inr st')"
  shows "ids_ok st'"
proof (cases rule: process_chunk_cases [of lib client cut_max idx ch full_text st cut_min])
  case (1 st1)
  from try_oracle_ids_ok [OF assms(1), of lib client cut_max idx "fst ch" "snd ch"
      "py_slice full_text (fst ch) (snd ch)"] 1(1)
  have "ids_ok st1" by simp
  with 1(2) assms(2) show ?thesis by simp
next
  case (2 st1 ex)
  from try_oracle_ids_ok [OF assms(1), of lib client cut_max idx "fst ch" "snd ch"
      "py_slice full_text (fst ch) (snd ch)"] 2(1)
  have "ids_ok st1" by simp
  with 2(2) assms(2) show ?thesis
    by (cases "fallback_segments (py_slice full_text (fst ch) (snd ch)) cut_min cut_max")
      (auto simp: fallback_emit_ids_ok)
qed

lemma process_chunk_no_exception:
  "process_chunk lib client cut_min cut_max full_text idx ch st \<noteq> Some (Inl ex)"
proof (cases rule: process_chunk_cases [of lib client cut_max idx ch full_text st cut_min])
  case (1 st1)
  then show ?thesis by simp
next
  case (2 st1 ex')
  then show ?thesis
    by (cases "fallback_segments (py_slice full_text (fst ch) (snd ch)) cut_min cut_max")
      simp_all
qed

lemma process_chunks_no_exception:
  "process_chunks lib client cut_min cut_max full_text idx chunks st \<noteq> Some (Inl ex)"
proof (induction chunks arbitrary: st idx)
  case Nil
  show ?case by simp
next
  case (Cons ch chunks)
  show ?case
  proof (cases "process_chunk lib client cut_min cut_max full_text idx ch st")
    case None
    then show ?thesis by simp
  next
    case (Some r)
    show ?thesis
    proof (cases r)
      case (Inl ex')
      with Some process_chunk_no_exception show ?thesis by blast
    next
      case (Inr st1)
      with Some Cons [where st = st1 and idx = "Suc idx"] show ?thesis by simp
    qed
  qed
qed

lemma process_chunks_ids_ok:
  "ids_ok st
   \<Longrightarrow> process_chunks lib client cut_min cut_max full_text idx chunks st = Some (Inr st')
   \<Longrightarrow> ids_ok st'"
proof (induction chunks arbitrary: st idx)
  case Nil
  then show ?case by simp
next
  case (Cons ch chunks)
  from Cons.prems(2) obtain st1 where
    1: "process_chunk lib client cut_min cut_max full_text idx ch st = Some (Inr st1)"
    and 2: "process_chunks lib client cut_min cut_max full_text (Suc idx) chunks st1
              = Some (Inr st')"
    by (auto split: option.splits sum.splits)
  from process_chunk_ids_ok [OF Cons.prems(1) 1] have "ids_ok st1" .
  from Cons.IH [OF this 2] show ?case .
qed

lemma fallback_segments_returns:
  assumes "1 \<le> cut_max"
  shows "\<exists>segs. fallback_segments chunk_text cut_min cut_max = Some segs"
proof -
  from fallback_loop_terminates [OF assms, of "(0, [])" "normalize_newlines chunk_text" cut_min]
  obtain spans where "split_fallback_chunk chunk_text cut_min cut_max = Some spans"
    by (auto simp: split_fallback_chunk_def)
  then show ?thesis by (simp add: fallback_segments_def Let_def)
qed

lemma process_chunk_returns:
  assumes "1 \<le> cut_max"
  shows "\<exists>st'. process_chunk lib client cut_min cut_max full_text idx ch st = Some (Inr st')"
proof (cases rule: process_chunk_cases [of lib client cut_max idx ch full_text st cut_min])
  case (1 st1)
  then show ?thesis by simp
next
  case (2 st1 ex)
  from fallback_segments_returns [OF assms, of "py_slice full_text (fst ch) (snd ch)" cut_min]
  obtain segs where
    "fallback_segments (py_slice full_text (fst ch) (snd ch)) cut_min cut_max = Some segs"
    by blast
  with 2(2) show ?thesis by simp
qed

lemma process_chunks_returns:
  assumes "1 \<le> cut_max"
  shows "\<exists>st'. process_chunks lib client cut_min cut_max full_text idx chunks st
           = Some (Inr st')"
proof (induction chunks arbitrary: st idx)
  case Nil
  show ?case by simp
next
  case (Cons ch chunks)
  from process_chunk_returns [OF assms, of lib client cut_min full_text idx ch st]
  obtain st1 where "process_chunk lib client cut_min cut_max full_text idx ch st = Some (Inr st1)"
    by blast
  with Cons [where st = st1 and idx = "Suc idx"] show ?case by simp
qed

lemma derive_cut_parameters_cut_max:
  assumes "derive_cut_parameters target = Inr (cut_min, cut_max, target_min, target_max)"
  shows "90 \<le> cut_max"
proof -
  from assms have "\<exists>c d. cut_min = max 40 c \<and> cut_max = max (cut_min + 50) d"
    by (simp add: derive_cut_parameters_def Let_def split: sum.splits) blast
  then show ?thesis by auto
qed





lemma run_result:
  obtains ex where "derive_cut_parameters chunk_target = Inl ex"
      "llm_cut_and_label_with_params lib client full_text chunk_target window overlap
         = Some (Inl ex)"
  | st where "ids_ok st"
      "llm_cut_and_label_with_params lib client full_text chunk_target window overlap
         = Some (Inr (fst st))"
proof (cases "derive_cut_parameters chunk_target")
  case (Inl ex)
  then show ?thesis by (intro that(1) [of ex]) (simp_all add: llm_cut_and_label_with_params_def)
next
  case (Inr q)
  obtain cut_min cut_max target_min target_max
    where q: "q = (cut_min, cut_max, target_min, target_max)" by (cases q) auto
  from derive_cut_parameters_cut_max [of chunk_target cut_min cut_max] Inr q
  have "1 \<le> cut_max" by simp
  from process_chunks_returns [OF this, of lib client cut_min full_text 1
      "chunk_for_llm full_text window overlap" "([], 1)"]
  obtain st where st: "process_chunks lib client cut_min cut_max full_text 1
      (chunk_for_llm full_text window overlap) ([], 1) = Some (Inr st)" by blast
  have "ids_ok ([], 1)" by (simp add: ids_ok_def)
  from process_chunks_ids_ok [OF this st] have "ids_ok st" .
  moreover have "llm_cut_and_label_with_params lib client full_text chunk_target window overlap
      = Some (Inr (fst st))"
    using Inr q st by (simp add: llm_cut_and_label_with_params_def)
  ultimately show ?thesis by (rule that(2))
qed


lemma derive_cut_parameters_150: "derive_cut_parameters 150 = Inr (90, 240, 112, 187)"
  using derive_cut_parameters_in_range [of 150 150] by simp

lemma run_at_150:
  "llm_cut_and_label_with_params lib client full_text 150 window overlap =
     (case process_chunks lib client 90 240 full_text 1
             (chunk_for_llm full_text window overlap) ([], 1) of
        None \<Rightarrow> None
      | Some (Inl ex) \<Rightarrow> Some (Inl ex)
      | Some (Inr st) \<Rightarrow> Some (Inr (fst st)))"
  by (simp add: llm_cut_and_label_with_params_def derive_cut_parameters_150)




text \<open>
  Claim C1 at a concrete run. The text has ten characters and one window, \<open>(0, 10)\<close>; the
  oracle reports the local span \<open>{start: 50, end: 60}\<close>. Both values exceed 1.5 times
  the window size and are taken as absolute; the end is then lowered to the window end,
  the start is not, and the emitted Cut has the span \<open>(50, 10)\<close>: its start lies beyond
  the window and beyond its end.
\<close>

theorem oracle_span_outside_window:
  "chunk_for_llm (ustr ''abcdefghij'') 2000 150 = [(0, 10)]
   \<and> map_option (map_sum id (map (\<lambda>p. (panel_text p, source_span p))))
       (llm_cut_and_label_with_params sample_lib
          (\<lambda>idx chunk_text. Inr (Some (ustr
             ''[{\"text\":\"abc\",\"source_local_span\":{\"start\":50,\"end\":60}}]'')))
          (ustr ''abcdefghij'') 150 2000 150)
     = Some (Inr [(ustr ''abc'', (50, 10))])"
  unfolding run_at_150 by code_simp

text \<open>
  Claim C2 at a concrete run. The oracle rejects the credentials on every call. The run
  returns normally, with one fallback Cut for each of the two windows: the error does not
  reach the caller, fallback Cuts are emitted for the first window, and the second window
  is processed.
\<close>

theorem authentication_error_falls_back:
  "chunk_for_llm (ustr ''abcdefg'') 4 1 = [(0, 4), (3, 7)]
   \<and> map_option (map_sum id (map (\<lambda>p. (panel_id p, panel_type p, panel_text p, source_span p))))
       (llm_cut_and_label_with_params sample_lib
          (\<lambda>idx chunk_text. Inl AuthenticationError) (ustr ''abcdefg'') 150 4 1)
     = Some (Inr [(ustr ''c0001'', JStr (ustr ''narration''), ustr ''abcd'', (0, 4)),
                  (ustr ''c0002'', JStr (ustr ''narration''), ustr ''defg'', (3, 7))])"
  unfolding run_at_150 by code_simp

text \<open>No exception of the oracle ever reaches the caller, whatever its class: the only
  exception the function can end with comes from the length bounds.\<close>

lemma oracle_exception_never_propagates:
  assumes "llm_cut_and_label_with_params lib client full_text chunk_target window overlap
             = Some (Inl ex)"
  shows "derive_cut_parameters chunk_target = Inl ex"
proof (cases rule: run_result [of chunk_target lib client full_text window overlap])
  case (1 ex')
  with assms show ?thesis by simp
next
  case (2 st)
  with assms show ?thesis by simp
qed

text \<open>
  Claim C3 at a concrete run. The text is \<open>a\<close>, a carriage return, a line feed and \<open>b\<close>,
  and the oracle fails on every call. The window is computed on the text with normalised
  line ends, which is one character shorter, and is cut out of the original text: the only
  Cut is \<open>a\<close> with the span \<open>(0, 1)\<close>, and the letter \<open>b\<close> at index 3, which is not
  whitespace, is in no Cut.
\<close>

theorem fallback_drops_text_after_crlf:
  "chunk_for_llm (ustr ''a'' @ [CR, LF] @ ustr ''b'') 2000 150 = [(0, 3)]
   \<and> map_option (map_sum id (map (\<lambda>p. (panel_text p, source_span p))))
       (llm_cut_and_label_with_params sample_lib
          (\<lambda>idx chunk_text. Inl OtherError) (ustr ''a'' @ [CR, LF] @ ustr ''b'') 150 2000 150)
     = Some (Inr [(ustr ''a'', (0, 1))])
   \<and> (ustr ''a'' @ [CR, LF] @ ustr ''b'') ! 3 = 98
   \<and> \<not> is_space 98"
  unfolding run_at_150 by code_simp

section \<open>Further properties of the spans\<close>

lemma reconcile_span_bounds:
  assumes "start_idx \<le> end_idx" and "reconcile_span ls le text_len start_idx end_idx = (gs, ge)"
  shows "start_idx \<le> gs" and "ge \<le> end_idx" and "gs \<le> end_idx \<Longrightarrow> gs \<le> ge"
  using assms by (auto simp: reconcile_span_def Let_def split: if_splits)

lemma lstrip_decomp: "s = takeWhile is_space s @ lstrip s"
  by (simp add: lstrip_def)

lemma rstrip_decomp: "s = rstrip s @ rev (takeWhile is_space (rev s))"
proof -
  have "rev (dropWhile is_space (rev s)) @ rev (takeWhile is_space (rev s))
      = rev (takeWhile is_space (rev s) @ dropWhile is_space (rev s))"
    by (rule rev_append [symmetric])
  also have "\<dots> = rev (rev s)" by (simp only: takeWhile_dropWhile_id)
  also have "\<dots> = s" by (rule rev_rev_ident)
  finally show ?thesis by (simp only: rstrip_def)
qed

lemma length_lstrip: "length (lstrip s) \<le> length s"
  unfolding lstrip_def by (rule length_dropWhile_le)

lemma length_rstrip: "length (rstrip s) \<le> length s"
proof -
  have "length (dropWhile is_space (rev s)) \<le> length (rev s)" by (rule length_dropWhile_le)
  then show ?thesis by (simp add: rstrip_def)
qed

lemma rstrip_eq_Nil_iff: "rstrip s = [] \<longleftrightarrow> (\<forall>c\<in>set s. is_space c)"
  by (simp add: rstrip_def dropWhile_eq_Nil_conv)

lemma lstrip_eq_Nil_iff: "lstrip s = [] \<longleftrightarrow> (\<forall>c\<in>set s. is_space c)"
  by (simp add: lstrip_def dropWhile_eq_Nil_conv)

lemma rstrip_prefix:
  assumes "rstrip t \<noteq> []"
  shows "rstrip (a @ t) = a @ rstrip t"
proof -
  from assms obtain x where x: "x \<in> set (rev t)" "\<not> is_space x"
    by (auto simp: rstrip_eq_Nil_iff)
  have "dropWhile is_space (rev t @ rev a) = dropWhile is_space (rev t) @ rev a"
    using x by (rule dropWhile_append1)
  then show ?thesis by (simp add: rstrip_def)
qed

text \<open>\<open>strip\<close> cuts the text between its leading and its trailing whitespace.\<close>

lemma strip_slice:
  assumes "strip s \<noteq> []"
  shows "length s - length (lstrip s) < length (rstrip s)"
    and "strip s = take (length (rstrip s) - (length s - length (lstrip s)))
                     (drop (length s - length (lstrip s)) s)"
proof -
  define a where "a = takeWhile is_space s"
  have s: "s = a @ lstrip s" unfolding a_def by (rule lstrip_decomp)
  have "length s = length a + length (lstrip s)" by (subst s) simp
  then have lead: "length s - length (lstrip s) = length a" by simp
  from assms have ne: "rstrip (lstrip s) \<noteq> []" by (simp add: strip_def)
  have "rstrip s = rstrip (a @ lstrip s)" by (subst s) (rule refl)
  also have "\<dots> = a @ rstrip (lstrip s)" using ne by (rule rstrip_prefix)
  finally have rs: "rstrip s = a @ strip s" by (simp add: strip_def)
  then have len: "length (rstrip s) = length a + length (strip s)" by simp
  with assms lead show "length s - length (lstrip s) < length (rstrip s)" by simp
  have d: "drop (length a) s = lstrip s" by (subst s) simp
  have "lstrip s = strip s @ rev (takeWhile is_space (rev (lstrip s)))"
    using rstrip_decomp [of "lstrip s"] by (simp add: strip_def)
  then have "take (length (strip s)) (lstrip s) = strip s"
    by (metis append_eq_conv_conj)
  with d len lead show "strip s = take (length (rstrip s) - (length s - length (lstrip s)))
                     (drop (length s - length (lstrip s)) s)" by simp
qed

lemma py_slice_nat:
  assumes "0 \<le> a" and "a \<le> b" and "b \<le> int (length s)"
  shows "py_slice s a b = take (nat b - nat a) (drop (nat a) s)"
proof -
  have "nat a \<le> length s" and "nat b \<le> length s" using assms by linarith+
  then show ?thesis using assms by (simp add: py_slice_def slice_bound_def Let_def min_def)
qed

lemma take_drop_take:
  assumes "l + k \<le> m"
  shows "take k (drop l (take m xs)) = take k (drop l xs)"
proof -
  have "drop l (take m xs) = take (m - l) (drop l xs)" by (rule drop_take)
  then have "take k (drop l (take m xs)) = take (min k (m - l)) (drop l xs)" by simp
  moreover have "min k (m - l) = k" using assms by simp
  ultimately show ?thesis by simp
qed

lemma fallback_step_spans:
  assumes "1 \<le> cut_max" and "0 \<le> fst st" and "fst st < int (length normalized)"
    and "\<forall>sp\<in>set (snd st). span_in_text normalized sp"
  shows "\<forall>sp\<in>set (snd (fallback_step normalized cut_min cut_max st)). span_in_text normalized sp"
proof -
  define cursor where "cursor = fst st"
  define sp where "sp = split_point normalized cut_min cut_max cursor"
  define raw where "raw = py_slice normalized cursor sp"
  define lead where "lead = length raw - length (lstrip raw)"
  define tend where "tend = length (rstrip raw)"
  have c0: "0 \<le> cursor" and cl: "cursor < int (length normalized)"
    using assms(2,3) by (simp_all add: cursor_def)
  from split_point_bounds [OF assms(1) c0 cl, of cut_min] tentative_end_bounds [OF assms(1) cl]
  have sp: "cursor \<le> sp" "sp \<le> int (length normalized)" by (simp_all add: sp_def)
  have raw: "raw = take (nat sp - nat cursor) (drop (nat cursor) normalized)"
    unfolding raw_def using c0 sp by (rule py_slice_nat)
  have lraw: "length raw = nat sp - nat cursor" using sp c0 by (simp add: raw)
  have step: "snd (fallback_step normalized cut_min cut_max st) =
      (if strip raw \<noteq> [] then snd st @ [(cursor + int lead, cursor + int tend, strip raw)]
       else snd st)"
    by (simp add: fallback_step_def Let_def cursor_def sp_def raw_def lead_def tend_def
        of_nat_diff length_lstrip)
  show ?thesis
  proof (cases "strip raw = []")
    case True
    with step assms(4) show ?thesis by simp
  next
    case False
    from strip_slice [OF False]
    have lt: "lead < tend"
      and st: "strip raw = take (tend - lead) (drop lead raw)"
      by (simp_all add: lead_def tend_def)
    have tl: "tend \<le> length raw" unfolding tend_def by (rule length_rstrip)
    note st
    also have "take (tend - lead) (drop lead raw)
        = take (tend - lead) (drop lead (drop (nat cursor) normalized))"
      unfolding raw using lt tl lraw by (intro take_drop_take) simp
    also have "\<dots> = take (tend - lead) (drop (nat cursor + lead) normalized)"
      by (simp add: add.commute)
    also have "\<dots> = py_slice normalized (cursor + int lead) (cursor + int tend)"
    proof -
      have "py_slice normalized (cursor + int lead) (cursor + int tend)
          = take (nat (cursor + int tend) - nat (cursor + int lead))
              (drop (nat (cursor + int lead)) normalized)"
        using c0 lt tl lraw sp by (intro py_slice_nat) simp_all
      moreover have "nat (cursor + int tend) - nat (cursor + int lead) = tend - lead"
        using c0 by (simp add: nat_add_distrib)
      moreover have "nat (cursor + int lead) = nat cursor + lead"
        using c0 by (simp add: nat_add_distrib)
      ultimately show ?thesis by simp
    qed
    finally have seg: "strip raw = py_slice normalized (cursor + int lead) (cursor + int tend)" .
    have "span_in_text normalized (cursor + int lead, cursor + int tend, strip raw)"
      using c0 lt tl lraw sp seg by (simp add: span_in_text_def)
    with step False assms(4) show ?thesis by simp
  qed
qed

lemma fallback_loop_spans:
  assumes "1 \<le> cut_max" and "0 \<le> fst st"
    and "\<forall>sp\<in>set (snd st). span_in_text normalized sp"
    and "fallback_loop normalized cut_min cut_max st = Some spans"
  shows "\<forall>sp\<in>set spans. span_in_text normalized sp"
  using assms(2-)
proof (induction "nat (int (length normalized) - fst st)" arbitrary: st rule: less_induct)
  case less
  show ?case
  proof (cases "fst st < int (length normalized)")
    case False
    with less.prems(3) have "spans = snd st"
      by (subst (asm) fallback_loop.simps) simp
    with less.prems(2) show ?thesis by simp
  next
    case True
    let ?st' = "fallback_step normalized cut_min cut_max st"
    from fallback_step_advances [OF assms(1) less.prems(1) True, of cut_min]
    have adv: "fst st < fst ?st'" "fst ?st' \<le> int (length normalized)" by simp_all
    then have m: "nat (int (length normalized) - fst ?st') < nat (int (length normalized) - fst st)"
      using True by linarith
    have p1: "0 \<le> fst ?st'" using adv less.prems(1) by linarith
    have p2: "\<forall>sp\<in>set (snd ?st'). span_in_text normalized sp"
      using assms(1) less.prems(1) True less.prems(2) by (rule fallback_step_spans)
    have p3: "fallback_loop normalized cut_min cut_max ?st' = Some spans"
      using less.prems(3) True by (subst (asm) fallback_loop.simps) simp
    from less.hyps [OF m p1 p2 p3] show ?thesis .
  qed
qed

lemma length_replace_crlf: "length (replace_crlf s) \<le> length s"
  by (induction s rule: replace_crlf.induct) auto

lemma length_normalize_newlines: "length (normalize_newlines s) \<le> length s"
  by (simp add: normalize_newlines_def replace_cr_def length_replace_crlf)

text \<open>
  The part of claim C3 on the splitter alone holds: with \<open>cut_max \<ge> 1\<close> every span it
  returns is a non-empty range inside the normalised window text, which is not longer
  than the window text, and carries the text of that range.
\<close>

lemma split_fallback_chunk_spans_in_text:
  assumes "1 \<le> cut_max" and "split_fallback_chunk text cut_min cut_max = Some spans"
    and "(s, e, seg) \<in> set spans"
  shows "0 \<le> s \<and> s < e \<and> e \<le> int (length (normalize_newlines text))
       \<and> length (normalize_newlines text) \<le> length text
       \<and> seg = py_slice (normalize_newlines text) s e"
proof -
  have "\<forall>sp\<in>set spans. span_in_text (normalize_newlines text) sp"
    using assms(1) _ _ assms(2) [unfolded split_fallback_chunk_def]
    by (rule fallback_loop_spans) simp_all
  with assms(3) have "span_in_text (normalize_newlines text) (s, e, seg)" by blast
  then show ?thesis by (simp add: span_in_text_def length_normalize_newlines)
qed

text \<open>
  What does hold for claim C1. A Cut of the oracle path starts at or after the window start
  and ends at or before the window end, and its end is not before its start as long as
  the start is not beyond the window end. A Cut of the fallback path lies in its window
  with its end not before its start.
\<close>

lemma label_item_span:
  assumes "start_idx \<le> end_idx"
    and "label_item lib cut_max start_idx end_idx cut_counter item = Inr (Some p)"
  shows "start_idx \<le> fst (source_span p)" and "snd (source_span p) \<le> end_idx"
    and "fst (source_span p) \<le> end_idx \<Longrightarrow> fst (source_span p) \<le> snd (source_span p)"
proof -
  from assms(2) obtain kvs text_local ls le speakers where
    p: "p = oracle_panel lib kvs cut_counter text_local
           (reconcile_span ls le (int (length text_local)) start_idx end_idx) speakers"
    by (rule label_item_Some)
  obtain gs ge where r: "reconcile_span ls le (int (length text_local)) start_idx end_idx = (gs, ge)"
    by (cases "reconcile_span ls le (int (length text_local)) start_idx end_idx")
  from p r have sp: "source_span p = (gs, ge)" by (simp add: oracle_panel_def)
  from reconcile_span_bounds [OF assms(1) r] sp
  show "start_idx \<le> fst (source_span p)" and "snd (source_span p) \<le> end_idx"
    and "fst (source_span p) \<le> end_idx \<Longrightarrow> fst (source_span p) \<le> snd (source_span p)"
    by simp_all
qed

lemma fallback_emit_spans:
  assumes "\<forall>seg\<in>set segs. 0 \<le> fst seg \<and> fst seg \<le> chunk_size"
  shows "\<exists>new. fst (fallback_emit lib start_idx chunk_size segs st) = fst st @ new
      \<and> (\<forall>p\<in>set new. start_idx \<le> fst (source_span p)
            \<and> fst (source_span p) \<le> snd (source_span p)
            \<and> snd (source_span p) \<le> start_idx + chunk_size)"
  using assms
proof (induction segs arbitrary: st)
  case Nil
  show ?case by simp
next
  case (Cons seg segs)
  then have seg: "0 \<le> fst seg" "fst seg \<le> chunk_size"
    and rest: "\<forall>seg\<in>set segs. 0 \<le> fst seg \<and> fst seg \<le> chunk_size" by simp_all
  show ?case
  proof (cases "strip (snd (snd seg)) = []")
    case True
    with Cons.IH [OF rest, of st] show ?thesis by simp
  next
    case False
    let ?p = "fallback_panel lib start_idx chunk_size (snd st) (fst seg) (strip (snd (snd seg)))"
    from Cons.IH [OF rest, of "(fst st @ [?p], Suc (snd st))"]
    obtain new where new: "fst (fallback_emit lib start_idx chunk_size segs
          (fst st @ [?p], Suc (snd st))) = (fst st @ [?p]) @ new"
      and ok: "\<forall>p\<in>set new. start_idx \<le> fst (source_span p)
            \<and> fst (source_span p) \<le> snd (source_span p)
            \<and> snd (source_span p) \<le> start_idx + chunk_size"
      by auto
    have "start_idx \<le> fst (source_span ?p) \<and> fst (source_span ?p) \<le> snd (source_span ?p)
        \<and> snd (source_span ?p) \<le> start_idx + chunk_size"
      using seg by (simp add: fallback_panel_def)
    with ok have "\<forall>p\<in>set (?p # new). start_idx \<le> fst (source_span p)
            \<and> fst (source_span p) \<le> snd (source_span p)
            \<and> snd (source_span p) \<le> start_idx + chunk_size" by simp
    moreover have "fst (fallback_emit lib start_idx chunk_size (seg # segs) st)
        = fst st @ (?p # new)"
      using False new by (simp add: Let_def)
    ultimately show ?thesis by blast
  qed
qed

lemma fallback_segments_starts:
  assumes "1 \<le> cut_max" and "fallback_segments chunk_text cut_min cut_max = Some segs"
    and "seg \<in> set segs"
  shows "0 \<le> fst seg \<and> fst seg \<le> int (length chunk_text)"
proof -
  from assms(2) obtain spans where
    spans: "split_fallback_chunk chunk_text cut_min cut_max = Some spans"
    by (auto simp: fallback_segments_def split: option.splits)
  show ?thesis
  proof (cases "spans = []")
    case True
    with spans assms(2,3) have "fst seg = int (length chunk_text) - int (length (lstrip chunk_text))"
      by (auto simp: fallback_segments_def Let_def split: if_splits)
    with length_lstrip [of chunk_text] show ?thesis by simp
  next
    case False
    with spans assms(2,3) have "seg \<in> set spans"
      by (simp add: fallback_segments_def)
    then have "(fst seg, fst (snd seg), snd (snd seg)) \<in> set spans" by simp
    from split_fallback_chunk_spans_in_text [OF assms(1) spans this] show ?thesis by simp
  qed
qed

lemma fallback_path_spans_in_window:
  assumes "1 \<le> cut_max" and "0 \<le> start_idx" and "start_idx \<le> end_idx"
    and "except_handler lib cut_min cut_max start_idx (end_idx - start_idx)
           (py_slice full_text start_idx end_idx) ex st = Some (Inr st')"
  shows "\<exists>new. fst st' = fst st @ new
      \<and> (\<forall>p\<in>set new. start_idx \<le> fst (source_span p)
            \<and> fst (source_span p) \<le> snd (source_span p)
            \<and> snd (source_span p) \<le> end_idx)"
proof -
  let ?chunk = "py_slice full_text start_idx end_idx"
  from assms(4) obtain segs where
    segs: "fallback_segments ?chunk cut_min cut_max = Some segs"
    and st': "st' = fallback_emit lib start_idx (end_idx - start_idx) segs st"
    by (auto simp: except_handler_fallback)
  have len: "int (length ?chunk) \<le> end_idx - start_idx"
    using length_py_slice [of start_idx end_idx full_text] assms(2,3) by simp
  have "\<forall>seg\<in>set segs. 0 \<le> fst seg \<and> fst seg \<le> end_idx - start_idx"
    using fallback_segments_starts [OF assms(1) segs] len by fastforce
  from fallback_emit_spans [OF this, of lib start_idx st] st' show ?thesis by simp
qed

end
